theory Spec2Isabelle
  imports Main "HOL-Library.Multiset"
begin

section \<open>The alignment stack of uncrustify (src/align\_stack.cpp)\<close>

text \<open>
  The member functions of \<open>AlignStack\<close> are embedded as functions on an explicit state.
  C++ \<open>int\<close> is modelled by \<open>int\<close>: signed overflow is undefined in C++, so the
  development speaks about runs in which no addition leaves the range of \<open>int\<close>.
  The \<open>LOG_FMT\<close> calls only trace and are left out.
\<close>

subsection \<open>Tokens and the document\<close>

text \<open>
  \<open>chunk_t\<close>: the fields of a token that align\_stack.cpp reads. A \<open>chunk_t *\<close> is an
  address; the document maps every address to the chunk stored there.
\<close>

record chunk_t =
  column :: int
  len :: int
  orig_line :: int

type_synonym chunk_ptr = nat

type_synonym document = "chunk_ptr \<Rightarrow> chunk_t"

text \<open>
  Modelled from the spec: \<open>indent_to_column\<close> (declared in prototypes.h, defined outside
  align\_stack.cpp) is the column applier, which "given a token and a target column, mutates
  the token's physical position in the document"; a token exposes a "mutable column" and an
  "immutable length". It is a parameter of the embedding: \<open>ind d pc col q\<close> is the column
  of chunk \<open>q\<close> after the call \<open>indent_to_column(pc, col)\<close> on document \<open>d\<close>. Any chunk's
  column may change; no length does.
\<close>

type_synonym applier = "document \<Rightarrow> chunk_ptr \<Rightarrow> int \<Rightarrow> chunk_ptr \<Rightarrow> int"

definition indent_to_column :: "applier \<Rightarrow> document \<Rightarrow> chunk_ptr \<Rightarrow> int \<Rightarrow> document" where
  "indent_to_column ind d pc col = (\<lambda>q. (d q)\<lparr>column := ind d pc col q\<rparr>)"

subsection \<open>ChunkStack\<close>

text \<open>
  Modelled from the spec: \<open>ChunkStack\<close> (chunk\_stack.h is not among the sources) is one of
  the "two ordered, append-only sequences with compaction on discard" of entries, an entry
  being "an internally owned pair (token reference, sequence number)". The field
  \<open>ChunkStack::Entry::m_seqnum\<close> is called \<open>e_seqnum\<close> here, since \<open>AlignStack\<close> has a
  member \<open>m_seqnum\<close> of its own. \<open>Push\<close> appends an entry, \<open>Reset\<close> is the empty stack,
  \<open>Empty\<close> and \<open>Len\<close> tell whether and how many entries there are, \<open>Get\<close> reads the
  entry at an index; \<open>Set\<close>, which takes a "snapshot", is the assignment of one stack to
  another.
\<close>

record Entry =
  m_pc :: chunk_ptr
  e_seqnum :: int

type_synonym ChunkStack = "Entry list"

definition Push :: "ChunkStack \<Rightarrow> chunk_ptr \<Rightarrow> int \<Rightarrow> ChunkStack" where
  "Push cs pc seqnum = cs @ [\<lparr>m_pc = pc, e_seqnum = seqnum\<rparr>]"

definition Reset :: "ChunkStack" where
  "Reset = []"

definition Empty :: "ChunkStack \<Rightarrow> bool" where
  "Empty cs = (cs = [])"

definition Len :: "ChunkStack \<Rightarrow> nat" where
  "Len cs = length cs"

text \<open>\<open>Get\<close> is only ever called with \<open>idx < Len cs\<close>.\<close>

definition Get :: "ChunkStack \<Rightarrow> nat \<Rightarrow> Entry" where
  "Get cs idx = cs ! idx"

text \<open>
  Modelled from the spec: the loop of \<open>Zap\<close> calls followed by \<open>Collapse\<close> in \<open>Flush\<close>
  does "discard every Skipped entry with seqnum < last\_seqnum (stale relative to the
  committed group), compact the remainder".
\<close>

definition Zap_Collapse :: "ChunkStack \<Rightarrow> int \<Rightarrow> ChunkStack" where
  "Zap_Collapse cs last_seqnum = filter (\<lambda>e. \<not> e_seqnum e < last_seqnum) cs"

subsection \<open>The state\<close>

text \<open>
  The members of \<open>AlignStack\<close> that align\_stack.cpp uses. \<open>m_scratch\<close> is a member as
  well: \<open>ReAddSkipped\<close> names it without declaring it, so every activation of
  \<open>ReAddSkipped\<close> shares it. The state is extended by the two parts of the environment
  the member functions touch: the document, and the list of calls of the column applier
  made so far (token and target column, oldest first).
\<close>

record AlignStack =
  m_aligned :: ChunkStack
  m_skipped :: ChunkStack
  m_scratch :: ChunkStack
  m_max_col :: int
  m_span :: int
  m_thresh :: int
  m_nl_seqnum :: int
  m_seqnum :: int

record world = AlignStack +
  chunks :: document
  applied :: "(chunk_ptr \<times> int) list"

subsection \<open>Start\<close>

definition Start :: "world \<Rightarrow> int \<Rightarrow> int \<Rightarrow> world" where
  "Start w span thresh =
     w\<lparr>m_aligned := Reset, m_skipped := Reset, m_span := span, m_thresh := thresh,
       m_max_col := 0, m_nl_seqnum := 0, m_seqnum := 0\<rparr>"

subsection \<open>The loop of Flush that calls the column applier\<close>

text \<open>
  \<open>for (idx = 0; idx < m_aligned.Len(); idx++)\<close> of \<open>Flush\<close>: one call
  \<open>indent_to_column(ce->m_pc, m_max_col - ce->m_pc->len)\<close> per entry, first entry first.
\<close>

fun Flush_loop :: "applier \<Rightarrow> world \<Rightarrow> ChunkStack \<Rightarrow> world" where
  "Flush_loop ind w [] = w"
| "Flush_loop ind w (ce # rest) =
     (let col = m_max_col w - len (chunks w (m_pc ce)) in
      Flush_loop ind
        (w\<lparr>chunks := indent_to_column ind (chunks w) (m_pc ce) col,
           applied := applied w @ [(m_pc ce, col)]\<rparr>) rest)"

subsection \<open>Add, ReAddSkipped, NewLines and Flush\<close>

text \<open>
  The four functions call each other: \<open>Add\<close> calls \<open>ReAddSkipped\<close>, whose loop calls
  \<open>Add\<close> and which ends with \<open>NewLines(0)\<close>; \<open>NewLines\<close> calls \<open>Flush\<close>, which calls
  \<open>ReAddSkipped\<close>. The first argument bounds the depth of calls: a run that needs more
  returns \<open>None\<close>. That every call returns is proved below (enough fuel gives \<open>Some\<close>).
  \<open>ReAdd_loop\<close> is the \<open>for\<close> loop of \<open>ReAddSkipped\<close>; it reads \<open>m_scratch\<close> anew in every
  round, as the code does.
\<close>

function (sequential) Add :: "nat \<Rightarrow> applier \<Rightarrow> world \<Rightarrow> chunk_ptr \<Rightarrow> int \<Rightarrow> world option"
  and ReAddSkipped :: "nat \<Rightarrow> applier \<Rightarrow> world \<Rightarrow> world option"
  and ReAdd_loop :: "nat \<Rightarrow> applier \<Rightarrow> world \<Rightarrow> nat \<Rightarrow> world option"
  and NewLines :: "nat \<Rightarrow> applier \<Rightarrow> world \<Rightarrow> int \<Rightarrow> world option"
  and Flush :: "nat \<Rightarrow> applier \<Rightarrow> world \<Rightarrow> world option"
where
  "Add 0 ind w pc seqnum0 = None"
| "Add (Suc n) ind w pc seqnum0 =
     (let seqnum = (if seqnum0 = 0 then m_seqnum w else seqnum0) in
      if m_max_col w = 0 \<or> m_thresh w = 0 \<or>
         (column (chunks w pc) \<le> m_max_col w + m_thresh w \<and>
          column (chunks w pc) \<ge> m_max_col w - m_thresh w)
      then
        (let w1 = (if seqnum > m_nl_seqnum w then w\<lparr>m_nl_seqnum := seqnum\<rparr> else w);
             w2 = w1\<lparr>m_aligned := Push (m_aligned w1) pc seqnum\<rparr>;
             endcol = column (chunks w2 pc) + len (chunks w2 pc)
         in
           if endcol > m_max_col w2
           then
             (let w3 = w2\<lparr>m_max_col := endcol\<rparr> in
              if \<not> Empty (m_skipped w3) then ReAddSkipped n ind w3 else Some w3)
           else Some w2)
      else Some (w\<lparr>m_skipped := Push (m_skipped w) pc seqnum\<rparr>))"
| "ReAddSkipped 0 ind w = None"
| "ReAddSkipped (Suc n) ind w =
     (if \<not> Empty (m_skipped w)
      then
        (let w1 = w\<lparr>m_scratch := m_skipped w\<rparr>;
             w2 = w1\<lparr>m_skipped := Reset\<rparr>
         in
           case ReAdd_loop n ind w2 0 of
             None \<Rightarrow> None
           | Some w3 \<Rightarrow> NewLines n ind w3 0)
      else Some w)"
| "ReAdd_loop 0 ind w idx = None"
| "ReAdd_loop (Suc n) ind w idx =
     (if idx < Len (m_scratch w)
      then
        (let ce = Get (m_scratch w) idx in
         case Add n ind w (m_pc ce) (e_seqnum ce) of
           None \<Rightarrow> None
         | Some w1 \<Rightarrow> ReAdd_loop n ind w1 (Suc idx))
      else Some w)"
| "NewLines 0 ind w cnt = None"
| "NewLines (Suc n) ind w cnt =
     (if \<not> Empty (m_aligned w)
      then
        (let w1 = w\<lparr>m_seqnum := m_seqnum w + cnt\<rparr> in
         if m_seqnum w1 > m_nl_seqnum w1 + m_span w1 then Flush n ind w1 else Some w1)
      else Some w)"
| "Flush 0 ind w = None"
| "Flush (Suc n) ind w =
     (let last_seqnum = (if m_aligned w = [] then 0 else e_seqnum (last (m_aligned w)));
          w1 = Flush_loop ind w (m_aligned w);
          w2 = (if m_aligned w \<noteq> [] then w1\<lparr>m_aligned := Reset\<rparr> else w1);
          w3 = w2\<lparr>m_max_col := 0\<rparr>
      in
        if Empty (m_skipped w3)
        then Some (w3\<lparr>m_nl_seqnum := m_seqnum w3\<rparr>)
        else ReAddSkipped n ind (w3\<lparr>m_skipped := Zap_Collapse (m_skipped w3) last_seqnum\<rparr>))"

  by pat_completeness auto

termination
  apply (relation "measure (case_sum (case_sum (\<lambda>p. fst p) (\<lambda>p. fst p))
      (case_sum (\<lambda>p. fst p) (case_sum (\<lambda>p. fst p) (\<lambda>p. fst p))))")
  apply (simp_all only: wf_measure in_measure sum.case fst_conv lessI)
  done

subsection \<open>End\<close>

definition End :: "nat \<Rightarrow> applier \<Rightarrow> world \<Rightarrow> world option" where
  "End n ind w =
     (case (if \<not> Empty (m_aligned w) then Flush n ind w else Some w) of
        None \<Rightarrow> None
      | Some w1 \<Rightarrow> Some (w1\<lparr>m_aligned := Reset, m_skipped := Reset\<rparr>))"

subsection \<open>Notions used to state the properties\<close>

text \<open>
  The pieces of the bodies above, named: the sequence number \<open>Add\<close> works with, its
  threshold test, the end column of a token, the state after each of the two pushes and
  after a growth of the target, the state on which the loop of \<open>ReAddSkipped\<close> starts, and
  for \<open>Flush\<close> the sequence number of the last aligned entry, the calls of the column
  applier its loop makes, the state after the loop and the two resets, and the skipped
  entries that are not removed. The lemmas of the next section show that the functions are
  made of these pieces.
\<close>

definition seq_arg :: "world \<Rightarrow> int \<Rightarrow> int" where
  "seq_arg w seqnum = (if seqnum = 0 then m_seqnum w else seqnum)"

definition in_window :: "world \<Rightarrow> chunk_ptr \<Rightarrow> bool" where
  "in_window w pc =
     (m_max_col w = 0 \<or> m_thresh w = 0 \<or>
      (m_max_col w - m_thresh w \<le> column (chunks w pc) \<and>
       column (chunks w pc) \<le> m_max_col w + m_thresh w))"

definition endcol :: "world \<Rightarrow> chunk_ptr \<Rightarrow> int" where
  "endcol w pc = column (chunks w pc) + len (chunks w pc)"

definition to_aligned :: "world \<Rightarrow> chunk_ptr \<Rightarrow> int \<Rightarrow> world" where
  "to_aligned w pc seqnum =
     w\<lparr>m_nl_seqnum := max (m_nl_seqnum w) (seq_arg w seqnum),
       m_aligned := m_aligned w @ [\<lparr>m_pc = pc, e_seqnum = seq_arg w seqnum\<rparr>]\<rparr>"

definition to_skipped :: "world \<Rightarrow> chunk_ptr \<Rightarrow> int \<Rightarrow> world" where
  "to_skipped w pc seqnum =
     w\<lparr>m_skipped := m_skipped w @ [\<lparr>m_pc = pc, e_seqnum = seq_arg w seqnum\<rparr>]\<rparr>"

definition grown :: "world \<Rightarrow> chunk_ptr \<Rightarrow> int \<Rightarrow> world" where
  "grown w pc seqnum = (to_aligned w pc seqnum)\<lparr>m_max_col := endcol w pc\<rparr>"

definition snapshot :: "world \<Rightarrow> world" where
  "snapshot w = w\<lparr>m_scratch := m_skipped w, m_skipped := []\<rparr>"

definition last_seqnum :: "world \<Rightarrow> int" where
  "last_seqnum w = (if m_aligned w = [] then 0 else e_seqnum (last (m_aligned w)))"

definition flush_calls :: "world \<Rightarrow> (chunk_ptr \<times> int) list" where
  "flush_calls w = map (\<lambda>ce. (m_pc ce, m_max_col w - len (chunks w (m_pc ce)))) (m_aligned w)"

definition committed :: "applier \<Rightarrow> world \<Rightarrow> world" where
  "committed ind w = (Flush_loop ind w (m_aligned w))\<lparr>m_aligned := [], m_max_col := 0\<rparr>"

definition survivors :: "world \<Rightarrow> ChunkStack" where
  "survivors w = Zap_Collapse (m_skipped w) (last_seqnum w)"

text \<open>
  \<open>End\<close> is its conditional \<open>Flush\<close> (\<open>before_clear\<close>) followed by the two resets
  (\<open>cleared\<close>).
\<close>

definition before_clear :: "nat \<Rightarrow> applier \<Rightarrow> world \<Rightarrow> world option" where
  "before_clear n ind w = (if m_aligned w \<noteq> [] then Flush n ind w else Some w)"

definition cleared :: "world \<Rightarrow> world" where
  "cleared w = w\<lparr>m_aligned := [], m_skipped := []\<rparr>"

subsection \<open>Callers\<close>

text \<open>
  A caller makes calls of the public member functions, one after the other: \<open>session\<close> runs
  a list of calls from a state. The calls between \<open>Start\<close> and \<open>End\<close> are \<open>inner\<close>; \<open>added\<close>
  lists the tokens a caller passes to \<open>Add\<close>.
\<close>

datatype call =
  Call_Start int int
| Call_Add chunk_ptr int
| Call_NewLines int
| Call_Flush
| Call_End

fun do_call :: "nat \<Rightarrow> applier \<Rightarrow> world \<Rightarrow> call \<Rightarrow> world option" where
  "do_call n ind w (Call_Start span thresh) = Some (Start w span thresh)"
| "do_call n ind w (Call_Add pc seqnum) = Add n ind w pc seqnum"
| "do_call n ind w (Call_NewLines cnt) = NewLines n ind w cnt"
| "do_call n ind w Call_Flush = Flush n ind w"
| "do_call n ind w Call_End = End n ind w"

fun session :: "nat \<Rightarrow> applier \<Rightarrow> world \<Rightarrow> call list \<Rightarrow> world option" where
  "session n ind w [] = Some w"
| "session n ind w (c # cs) =
     (case do_call n ind w c of None \<Rightarrow> None | Some w1 \<Rightarrow> session n ind w1 cs)"

fun inner :: "call \<Rightarrow> bool" where
  "inner (Call_Add pc seqnum) = True"
| "inner (Call_NewLines cnt) = True"
| "inner Call_Flush = True"
| "inner _ = False"

fun added :: "call list \<Rightarrow> chunk_ptr list" where
  "added [] = []"
| "added (Call_Add pc seqnum # cs) = pc # added cs"
| "added (c # cs) = added cs"

subsection \<open>What a call leaves behind\<close>

text \<open>
  \<open>follows w w'\<close>: from \<open>w\<close> to \<open>w'\<close> calls of the column applier were only added, and either
  there was none and Aligned was only extended, or every token that was in Aligned has been
  passed to the applier. \<open>tokens_of\<close> counts the tokens held in the two collections together
  with those already passed to the applier. \<open>observe\<close> is what the examples below show of a
  state: the tokens in Aligned and in Skipped, \<open>max_col\<close>, \<open>nl_seqnum\<close>, \<open>seqnum\<close> and the
  calls of the applier.
\<close>

definition follows :: "world \<Rightarrow> world \<Rightarrow> bool" where
  "follows w w' =
     (\<exists>cs. applied w' = applied w @ cs \<and>
        ((cs = [] \<and> (\<exists>xs. m_aligned w' = m_aligned w @ xs)) \<or>
         m_pc ` set (m_aligned w) \<subseteq> fst ` set cs))"

text \<open>
  \<open>in_group w w'\<close> says more about the same calls: no length has changed, and either there
  was no call and Aligned was only extended, or the calls begin with those of one flush,
  made for the old entries of Aligned followed by entries added since, in this order, with
  one target \<open>M\<close> for the end of each.
\<close>

definition in_group :: "world \<Rightarrow> world \<Rightarrow> bool" where
  "in_group w w' =
     ((\<forall>p. len (chunks w' p) = len (chunks w p)) \<and>
      (\<exists>cs. applied w' = applied w @ cs \<and>
         ((cs = [] \<and> (\<exists>xs. m_aligned w' = m_aligned w @ xs)) \<or>
          (\<exists>xs M rest.
             cs = map (\<lambda>ce. (m_pc ce, M - len (chunks w (m_pc ce)))) (m_aligned w @ xs) @ rest))))"

definition tokens_of :: "world \<Rightarrow> chunk_ptr multiset" where
  "tokens_of w =
     mset (map m_pc (m_aligned w)) + mset (map m_pc (m_skipped w)) + mset (map fst (applied w))"

definition observe ::
  "world \<Rightarrow> chunk_ptr list \<times> chunk_ptr list \<times> int \<times> int \<times> int \<times> (chunk_ptr \<times> int) list" where
  "observe w =
     (map m_pc (m_aligned w), map m_pc (m_skipped w), m_max_col w, m_nl_seqnum w, m_seqnum w,
      applied w)"

subsection \<open>Sizes, for the proof that every call returns\<close>

text \<open>
  What a call does to the lengths of the three lists (\<open>k\<close> is 1 for \<open>Add\<close>, which brings a
  token, and 0 otherwise). For the loop of \<open>ReAddSkipped\<close> this is stated where it runs:
  Skipped holds at most the \<open>idx\<close> entries rejected so far.
\<close>

definition sizes_ok :: "world \<Rightarrow> nat \<Rightarrow> world \<Rightarrow> bool" where
  "sizes_ok w k w' =
     (length (m_aligned w') + length (m_skipped w') \<le> length (m_aligned w) + length (m_skipped w) + k \<and>
      length (m_skipped w') \<le> length (m_skipped w) + k \<and>
      (m_scratch w' = m_scratch w \<or> length (m_scratch w') \<le> length (m_skipped w)))"

definition loop_sizes_ok :: "world \<Rightarrow> nat \<Rightarrow> world \<Rightarrow> bool" where
  "loop_sizes_ok w idx w' =
     (length (m_skipped w) \<le> idx \<longrightarrow>
      length (m_aligned w') + length (m_skipped w') \<le>
        length (m_aligned w) + length (m_skipped w) + (length (m_scratch w) - idx) \<and>
      length (m_skipped w') \<le> length (m_skipped w) + (length (m_scratch w) - idx) \<and>
      length (m_scratch w') \<le> max (length (m_scratch w)) idx)"

text \<open>
  A configuration is a call together with the state it starts in. The three measures
  \<open>held\<close>, \<open>waiting\<close> and \<open>rank\<close>, compared in this order, decrease from a call to each call
  made in its body: a flush of a non-empty Aligned lowers the number of entries held, an
  acceptance lowers the number of entries not in Aligned, and \<open>rank\<close> orders the rest.
\<close>

datatype config =
  K_Add world chunk_ptr int
| K_ReAddSkipped world
| K_ReAdd_loop world nat
| K_NewLines world int
| K_Flush world

fun returns :: "nat \<Rightarrow> applier \<Rightarrow> config \<Rightarrow> bool" where
  "returns n ind (K_Add w pc s) = (Add n ind w pc s \<noteq> None)"
| "returns n ind (K_ReAddSkipped w) = (ReAddSkipped n ind w \<noteq> None)"
| "returns n ind (K_ReAdd_loop w idx) = (ReAdd_loop n ind w idx \<noteq> None)"
| "returns n ind (K_NewLines w cnt) = (NewLines n ind w cnt \<noteq> None)"
| "returns n ind (K_Flush w) = (Flush n ind w \<noteq> None)"

fun ready :: "config \<Rightarrow> bool" where
  "ready (K_ReAdd_loop w idx) = (length (m_skipped w) \<le> idx)"
| "ready (K_Flush w) = (m_aligned w \<noteq> [])"
| "ready _ = True"

fun held :: "config \<Rightarrow> nat" where
  "held (K_Add w pc s) = length (m_aligned w) + length (m_skipped w) + 1"
| "held (K_ReAddSkipped w) = length (m_aligned w) + length (m_skipped w)"
| "held (K_ReAdd_loop w idx) =
     length (m_aligned w) + length (m_skipped w) + (length (m_scratch w) - idx)"
| "held (K_NewLines w cnt) = length (m_aligned w) + length (m_skipped w)"
| "held (K_Flush w) = length (m_aligned w) + length (m_skipped w)"

fun waiting :: "config \<Rightarrow> nat" where
  "waiting (K_Add w pc s) = length (m_skipped w) + 1"
| "waiting (K_ReAddSkipped w) = length (m_skipped w)"
| "waiting (K_ReAdd_loop w idx) = length (m_skipped w) + (length (m_scratch w) - idx)"
| "waiting (K_NewLines w cnt) = length (m_skipped w)"
| "waiting (K_Flush w) = length (m_skipped w)"

fun rank :: "config \<Rightarrow> nat" where
  "rank (K_Add w pc s) = 0"
| "rank (K_ReAddSkipped w) = 2 * length (m_skipped w) + 2"
| "rank (K_ReAdd_loop w idx) = 2 * (length (m_scratch w) - idx) + 1"
| "rank (K_NewLines w cnt) = 1"
| "rank (K_Flush w) = 0"

subsection \<open>Nothing pending\<close>

text \<open>
  \<open>settled\<close>: when Aligned is empty, so is Skipped, and \<open>max_col\<close> is 0. \<open>target_clear\<close> is
  the part of it that \<open>Flush\<close> hands to the replay of the surviving entries.
\<close>

definition target_clear :: "world \<Rightarrow> bool" where
  "target_clear w = (m_aligned w = [] \<longrightarrow> m_max_col w = 0)"

definition settled :: "world \<Rightarrow> bool" where
  "settled w = (m_aligned w = [] \<longrightarrow> m_skipped w = [] \<and> m_max_col w = 0)"

subsection \<open>Counting newlines\<close>

text \<open>
  \<open>tally\<close> runs a list of calls and sums the counts of those \<open>NewLines\<close> calls that are made
  while Aligned is not empty, starting again from 0 at \<open>Start\<close>; \<open>seqnums\<close> lists the values
  of \<open>seqnum\<close> before the first call and after each call. \<open>newline_total\<close> is the sum of all
  counts passed to \<open>NewLines\<close>, whatever the state.
\<close>

fun counted :: "world \<Rightarrow> int \<Rightarrow> call \<Rightarrow> int" where
  "counted w acc (Call_Start span thresh) = 0"
| "counted w acc (Call_NewLines cnt) = (if m_aligned w = [] then acc else acc + cnt)"
| "counted w acc c = acc"

fun tally :: "nat \<Rightarrow> applier \<Rightarrow> world \<Rightarrow> int \<Rightarrow> call list \<Rightarrow> int" where
  "tally n ind w acc [] = acc"
| "tally n ind w acc (c # cs) =
     (case do_call n ind w c of
        None \<Rightarrow> acc
      | Some w1 \<Rightarrow> tally n ind w1 (counted w acc c) cs)"

fun seqnums :: "nat \<Rightarrow> applier \<Rightarrow> world \<Rightarrow> call list \<Rightarrow> int list" where
  "seqnums n ind w [] = [m_seqnum w]"
| "seqnums n ind w (c # cs) =
     m_seqnum w # (case do_call n ind w c of None \<Rightarrow> [] | Some w1 \<Rightarrow> seqnums n ind w1 cs)"

fun newline_total :: "call list \<Rightarrow> int" where
  "newline_total [] = 0"
| "newline_total (Call_NewLines cnt # cs) = cnt + newline_total cs"
| "newline_total (c # cs) = newline_total cs"

fun no_negative_count :: "call \<Rightarrow> bool" where
  "no_negative_count (Call_NewLines cnt) = (0 \<le> cnt)"
| "no_negative_count c = True"

text \<open>
  A call is \<open>on_time\<close> when it is an \<open>Add\<close> whose sequence number is unset or not ahead of
  the running \<open>seqnum\<close>, or a \<open>NewLines\<close> with a count that is not negative, or any other
  call; a list of calls is \<open>punctual\<close> from a state when each call is on time in the state it
  is made in. \<open>nl_ok\<close> is \<open>nl_seqnum \<le> seqnum\<close> together with what keeps it true through a
  replay: no skipped entry carries a sequence number ahead of \<open>seqnum\<close>.
\<close>

fun on_time :: "world \<Rightarrow> call \<Rightarrow> bool" where
  "on_time w (Call_Add pc seqnum) = (seqnum = 0 \<or> seqnum \<le> m_seqnum w)"
| "on_time w (Call_NewLines cnt) = (0 \<le> cnt)"
| "on_time w c = True"

fun punctual :: "nat \<Rightarrow> applier \<Rightarrow> world \<Rightarrow> call list \<Rightarrow> bool" where
  "punctual n ind w [] = True"
| "punctual n ind w (c # cs) =
     (on_time w c \<and>
      (case do_call n ind w c of None \<Rightarrow> True | Some w1 \<Rightarrow> punctual n ind w1 cs))"

definition stored_ok :: "world \<Rightarrow> Entry \<Rightarrow> bool" where
  "stored_ok w e = (e_seqnum e = 0 \<or> e_seqnum e \<le> m_seqnum w)"

definition nl_ok :: "world \<Rightarrow> bool" where
  "nl_ok w = (m_nl_seqnum w \<le> m_seqnum w \<and> list_all (stored_ok w) (m_skipped w))"

definition keeps_time :: "world \<Rightarrow> world \<Rightarrow> bool" where
  "keeps_time w w' =
     (nl_ok w' \<and> (list_all (stored_ok w) (m_scratch w) \<longrightarrow> list_all (stored_ok w') (m_scratch w')))"

subsection \<open>Tokens that end at a positive column\<close>

text \<open>
  \<open>pos_doc\<close>: every token of the document has \<open>column + len > 0\<close>. \<open>keeps_positive\<close>: the
  column applier keeps this when it is called with a target column such that
  \<open>target + len > 0\<close> for the token it moves. \<open>group_ok\<close> is the state predicate
  "\<open>max_col = 0\<close> iff Aligned is empty", for a document of such tokens and with
  \<open>max_col \<ge> 0\<close>.
\<close>

definition pos_doc :: "document \<Rightarrow> bool" where
  "pos_doc d = (\<forall>p. 0 < column (d p) + len (d p))"

definition keeps_positive :: "applier \<Rightarrow> bool" where
  "keeps_positive ind =
     (\<forall>d pc col. pos_doc d \<and> 0 < col + len (d pc) \<longrightarrow> pos_doc (indent_to_column ind d pc col))"

definition group_ok :: "world \<Rightarrow> bool" where
  "group_ok w =
     (pos_doc (chunks w) \<and> 0 \<le> m_max_col w \<and> (m_max_col w = 0) = (m_aligned w = []))"

subsection \<open>Concrete documents and states\<close>

text \<open>
  For the examples: the column applier that sets the column of the token it is called on and
  moves no other token; the document whose token \<open>p\<close> has the \<open>p\<close>-th column and length of
  a list; an object on which nothing has been called yet; and some states and callers.
\<close>

definition set_column :: applier where
  "set_column d pc col q = (if q = pc then col else column (d q))"

definition doc_of :: "(int \<times> int) list \<Rightarrow> document" where
  "doc_of toks p =
     (if p < length toks
      then \<lparr>column = fst (toks ! p), len = snd (toks ! p), orig_line = int p\<rparr>
      else \<lparr>column = 1, len = 1, orig_line = 0\<rparr>)"

definition fresh :: "document \<Rightarrow> world" where
  "fresh d = \<lparr>m_aligned = [], m_skipped = [], m_scratch = [], m_max_col = 0, m_span = 0,
     m_thresh = 0, m_nl_seqnum = 0, m_seqnum = 0, chunks = d, applied = []\<rparr>"

definition far_tokens :: document where
  "far_tokens = doc_of [(1, 1), (10, 1), (30, 1)]"

definition five_tokens :: document where
  "five_tokens = doc_of [(10, 1), (20, 1), (14, 1), (15, 1), (12, 1)]"

definition pending_one :: world where
  "pending_one =
     \<lparr>m_aligned = [\<lparr>m_pc = 0, e_seqnum = 1\<rparr>], m_skipped = [], m_scratch = [], m_max_col = 11,
      m_span = 3, m_thresh = 2, m_nl_seqnum = 1, m_seqnum = 0,
      chunks = doc_of [(10, 1), (14, 1), (12, 1)], applied = []\<rparr>"

definition replay_state :: world where
  "replay_state =
     \<lparr>m_aligned = [\<lparr>m_pc = 0, e_seqnum = 1\<rparr>], m_skipped = [\<lparr>m_pc = 1, e_seqnum = 2\<rparr>],
      m_scratch = [], m_max_col = 11, m_span = 3, m_thresh = 2, m_nl_seqnum = 1, m_seqnum = 0,
      chunks = doc_of [(10, 1), (14, 1), (12, 1)], applied = []\<rparr>"

definition expired_state :: world where
  "expired_state =
     \<lparr>m_aligned = [\<lparr>m_pc = 0, e_seqnum = 3\<rparr>], m_skipped = [\<lparr>m_pc = 1, e_seqnum = 3\<rparr>],
      m_scratch = [], m_max_col = 2, m_span = 0, m_thresh = 1, m_nl_seqnum = 3, m_seqnum = 5,
      chunks = doc_of [(1, 1), (10, 1), (3, 1)], applied = []\<rparr>"

definition spec_example :: world where
  "spec_example =
     \<lparr>m_aligned = [\<lparr>m_pc = 0, e_seqnum = 1\<rparr>, \<lparr>m_pc = 2, e_seqnum = 3\<rparr>, \<lparr>m_pc = 1, e_seqnum = 2\<rparr>],
      m_skipped = [], m_scratch = [\<lparr>m_pc = 1, e_seqnum = 2\<rparr>], m_max_col = 15,
      m_span = 3, m_thresh = 2, m_nl_seqnum = 3, m_seqnum = 0,
      chunks = doc_of [(10, 1), (14, 1), (12, 1)], applied = []\<rparr>"

definition two_groups :: world where
  "two_groups =
     \<lparr>m_aligned = [\<lparr>m_pc = 0, e_seqnum = 1\<rparr>], m_skipped = [\<lparr>m_pc = 1, e_seqnum = 1\<rparr>],
      m_scratch = [], m_max_col = 2, m_span = 0, m_thresh = 1, m_nl_seqnum = 1, m_seqnum = 0,
      chunks = doc_of [(1, 1), (10, 1)], applied = []\<rparr>"

definition punctual_calls :: "call list" where
  "punctual_calls =
     [Call_Add 0 0, Call_NewLines 2, Call_Add 1 1, Call_NewLines 9, Call_Add 2 11, Call_End]"

section \<open>One step of each function\<close>

lemma Add_step:
  "Add (Suc n) ind w pc s =
     (if in_window w pc
      then if m_max_col w < endcol w pc
           then if m_skipped w \<noteq> []
                then ReAddSkipped n ind (grown w pc s)
                else Some (grown w pc s)
           else Some (to_aligned w pc s)
      else Some (to_skipped w pc s))"
  by (auto simp add: Let_def in_window_def endcol_def to_aligned_def to_skipped_def seq_arg_def
      grown_def Push_def Empty_def max_def)

lemma ReAddSkipped_step:
  "ReAddSkipped (Suc n) ind w =
     (if m_skipped w \<noteq> []
      then case ReAdd_loop n ind (snapshot w) 0 of
             None \<Rightarrow> None
           | Some w3 \<Rightarrow> NewLines n ind w3 0
      else Some w)"
  by (simp add: Let_def snapshot_def Empty_def Reset_def)

lemma ReAdd_loop_step:
  "ReAdd_loop (Suc n) ind w idx =
     (if idx < length (m_scratch w)
      then case Add n ind w (m_pc (m_scratch w ! idx)) (e_seqnum (m_scratch w ! idx)) of
             None \<Rightarrow> None
           | Some w1 \<Rightarrow> ReAdd_loop n ind w1 (Suc idx)
      else Some w)"
  by (simp add: Let_def Len_def Get_def)

lemma NewLines_step:
  "NewLines (Suc n) ind w cnt =
     (if m_aligned w \<noteq> []
      then if m_nl_seqnum w + m_span w < m_seqnum w + cnt
           then Flush n ind (w\<lparr>m_seqnum := m_seqnum w + cnt\<rparr>)
           else Some (w\<lparr>m_seqnum := m_seqnum w + cnt\<rparr>)
      else Some w)"
  by (simp add: Let_def Empty_def)

lemma Flush_loop_fields:
  "m_aligned (Flush_loop ind w es) = m_aligned w"
  "m_skipped (Flush_loop ind w es) = m_skipped w"
  "m_scratch (Flush_loop ind w es) = m_scratch w"
  "m_max_col (Flush_loop ind w es) = m_max_col w"
  "m_span (Flush_loop ind w es) = m_span w"
  "m_thresh (Flush_loop ind w es) = m_thresh w"
  "m_nl_seqnum (Flush_loop ind w es) = m_nl_seqnum w"
  "m_seqnum (Flush_loop ind w es) = m_seqnum w"
  by (induction es arbitrary: w; simp add: Let_def)+

lemma Flush_loop_len:
  "len (chunks (Flush_loop ind w es) p) = len (chunks w p)"
  by (induction es arbitrary: w) (simp_all add: Let_def indent_to_column_def)

lemma Flush_loop_applied:
  "applied (Flush_loop ind w es) =
     applied w @ map (\<lambda>ce. (m_pc ce, m_max_col w - len (chunks w (m_pc ce)))) es"
proof (induction es arbitrary: w)
  case Nil
  show ?case by simp
next
  case (Cons e es)
  show ?case
    by (simp add: Let_def Cons.IH indent_to_column_def)
qed

lemma Flush_step:
  "Flush (Suc n) ind w =
     (if m_skipped w = []
      then Some ((committed ind w)\<lparr>m_nl_seqnum := m_seqnum w\<rparr>)
      else ReAddSkipped n ind ((committed ind w)\<lparr>m_skipped := survivors w\<rparr>))"
proof -
  have eq: "(if m_aligned w \<noteq> [] then (Flush_loop ind w (m_aligned w))\<lparr>m_aligned := Reset\<rparr>
             else Flush_loop ind w (m_aligned w)) = (Flush_loop ind w (m_aligned w))\<lparr>m_aligned := []\<rparr>"
    by (simp add: Reset_def)
  show ?thesis
    unfolding Flush.simps Let_def eq
    by (simp add: committed_def survivors_def last_seqnum_def Empty_def Flush_loop_fields)
qed

declare Add.simps(2) [simp del] ReAddSkipped.simps(2) [simp del] ReAdd_loop.simps(2) [simp del]
  NewLines.simps(2) [simp del] Flush.simps(2) [simp del]

section \<open>Induction over the calls made\<close>

text \<open>
  A property of the results of the five functions holds when it holds for every way each
  body can run, given that it holds for the calls the body makes. The facts that these calls
  returned are at hand too.
\<close>

lemma calls_induct:
  fixes PA :: "world \<Rightarrow> chunk_ptr \<Rightarrow> int \<Rightarrow> world \<Rightarrow> bool"
    and PR :: "world \<Rightarrow> world \<Rightarrow> bool"
    and PL :: "world \<Rightarrow> nat \<Rightarrow> world \<Rightarrow> bool"
    and PN :: "world \<Rightarrow> int \<Rightarrow> world \<Rightarrow> bool"
    and PF :: "world \<Rightarrow> world \<Rightarrow> bool"
  assumes A_skip: "\<And>w pc s. \<not> in_window w pc \<Longrightarrow> PA w pc s (to_skipped w pc s)"
    and A_keep: "\<And>w pc s. in_window w pc \<Longrightarrow> \<not> m_max_col w < endcol w pc \<Longrightarrow>
          PA w pc s (to_aligned w pc s)"
    and A_grow: "\<And>w pc s. in_window w pc \<Longrightarrow> m_max_col w < endcol w pc \<Longrightarrow>
          m_skipped w = [] \<Longrightarrow> PA w pc s (grown w pc s)"
    and A_replay: "\<And>w pc s w' n. in_window w pc \<Longrightarrow> m_max_col w < endcol w pc \<Longrightarrow>
          m_skipped w \<noteq> [] \<Longrightarrow> PR (grown w pc s) w' \<Longrightarrow>
          ReAddSkipped n ind (grown w pc s) = Some w' \<Longrightarrow> PA w pc s w'"
    and R_none: "\<And>w. m_skipped w = [] \<Longrightarrow> PR w w"
    and R_some: "\<And>w w3 w' n. m_skipped w \<noteq> [] \<Longrightarrow> PL (snapshot w) 0 w3 \<Longrightarrow>
          PN w3 0 w' \<Longrightarrow> ReAdd_loop n ind (snapshot w) 0 = Some w3 \<Longrightarrow>
          NewLines n ind w3 0 = Some w' \<Longrightarrow> PR w w'"
    and L_done: "\<And>w idx. \<not> idx < length (m_scratch w) \<Longrightarrow> PL w idx w"
    and L_next: "\<And>w idx w1 w' n. idx < length (m_scratch w) \<Longrightarrow>
          PA w (m_pc (m_scratch w ! idx)) (e_seqnum (m_scratch w ! idx)) w1 \<Longrightarrow>
          PL w1 (Suc idx) w' \<Longrightarrow>
          Add n ind w (m_pc (m_scratch w ! idx)) (e_seqnum (m_scratch w ! idx)) = Some w1 \<Longrightarrow>
          ReAdd_loop n ind w1 (Suc idx) = Some w' \<Longrightarrow> PL w idx w'"
    and N_idle: "\<And>w cnt. m_aligned w = [] \<Longrightarrow> PN w cnt w"
    and N_keep: "\<And>w cnt. m_aligned w \<noteq> [] \<Longrightarrow>
          \<not> m_nl_seqnum w + m_span w < m_seqnum w + cnt \<Longrightarrow>
          PN w cnt (w\<lparr>m_seqnum := m_seqnum w + cnt\<rparr>)"
    and N_flush: "\<And>w cnt w' n. m_aligned w \<noteq> [] \<Longrightarrow>
          m_nl_seqnum w + m_span w < m_seqnum w + cnt \<Longrightarrow>
          PF (w\<lparr>m_seqnum := m_seqnum w + cnt\<rparr>) w' \<Longrightarrow>
          Flush n ind (w\<lparr>m_seqnum := m_seqnum w + cnt\<rparr>) = Some w' \<Longrightarrow> PN w cnt w'"
    and F_sync: "\<And>w. m_skipped w = [] \<Longrightarrow>
          PF w ((committed ind w)\<lparr>m_nl_seqnum := m_seqnum w\<rparr>)"
    and F_replay: "\<And>w w' n. m_skipped w \<noteq> [] \<Longrightarrow>
          PR ((committed ind w)\<lparr>m_skipped := survivors w\<rparr>) w' \<Longrightarrow>
          ReAddSkipped n ind ((committed ind w)\<lparr>m_skipped := survivors w\<rparr>) = Some w' \<Longrightarrow>
          PF w w'"
  shows "(\<forall>w pc s w'. Add n ind w pc s = Some w' \<longrightarrow> PA w pc s w') \<and>
         (\<forall>w w'. ReAddSkipped n ind w = Some w' \<longrightarrow> PR w w') \<and>
         (\<forall>w idx w'. ReAdd_loop n ind w idx = Some w' \<longrightarrow> PL w idx w') \<and>
         (\<forall>w cnt w'. NewLines n ind w cnt = Some w' \<longrightarrow> PN w cnt w') \<and>
         (\<forall>w w'. Flush n ind w = Some w' \<longrightarrow> PF w w')"
proof (induction n)
  case 0
  show ?case by simp
next
  case (Suc n)
  have a: "\<And>w pc s w'. Add n ind w pc s = Some w' \<Longrightarrow> PA w pc s w'"
    and r: "\<And>w w'. ReAddSkipped n ind w = Some w' \<Longrightarrow> PR w w'"
    and l: "\<And>w idx w'. ReAdd_loop n ind w idx = Some w' \<Longrightarrow> PL w idx w'"
    and nl: "\<And>w cnt w'. NewLines n ind w cnt = Some w' \<Longrightarrow> PN w cnt w'"
    and f: "\<And>w w'. Flush n ind w = Some w' \<Longrightarrow> PF w w'"
    using Suc.IH by blast+
  have A: "PA w pc s w'" if h: "Add (Suc n) ind w pc s = Some w'" for w pc s w'
  proof (cases "in_window w pc")
    case False
    with h show ?thesis by (auto simp add: Add_step intro: A_skip)
  next
    case win: True
    show ?thesis
    proof (cases "m_max_col w < endcol w pc")
      case False
      with h win show ?thesis by (auto simp add: Add_step intro: A_keep)
    next
      case gr: True
      show ?thesis
      proof (cases "m_skipped w = []")
        case True
        with h win gr show ?thesis by (auto simp add: Add_step intro: A_grow)
      next
        case False
        with h win gr have "ReAddSkipped n ind (grown w pc s) = Some w'"
          by (simp add: Add_step)
        from A_replay[OF win gr False r[OF this] this] show ?thesis .
      qed
    qed
  qed
  have R: "PR w w'" if h: "ReAddSkipped (Suc n) ind w = Some w'" for w w'
  proof (cases "m_skipped w = []")
    case True
    with h show ?thesis by (auto simp add: ReAddSkipped_step intro: R_none)
  next
    case False
    with h obtain w3 where 1: "ReAdd_loop n ind (snapshot w) 0 = Some w3"
      and 2: "NewLines n ind w3 0 = Some w'"
      by (auto simp add: ReAddSkipped_step split: option.splits)
    from R_some[OF False l[OF 1] nl[OF 2] 1 2] show ?thesis .
  qed
  have L: "PL w idx w'" if h: "ReAdd_loop (Suc n) ind w idx = Some w'" for w idx w'
  proof (cases "idx < length (m_scratch w)")
    case False
    with h show ?thesis by (auto simp add: ReAdd_loop_step intro: L_done)
  next
    case True
    with h obtain w1
      where 1: "Add n ind w (m_pc (m_scratch w ! idx)) (e_seqnum (m_scratch w ! idx)) = Some w1"
      and 2: "ReAdd_loop n ind w1 (Suc idx) = Some w'"
      by (auto simp add: ReAdd_loop_step split: option.splits)
    from L_next[OF True a[OF 1] l[OF 2] 1 2] show ?thesis .
  qed
  have N: "PN w cnt w'" if h: "NewLines (Suc n) ind w cnt = Some w'" for w cnt w'
  proof (cases "m_aligned w = []")
    case True
    with h show ?thesis by (auto simp add: NewLines_step intro: N_idle)
  next
    case ne: False
    show ?thesis
    proof (cases "m_nl_seqnum w + m_span w < m_seqnum w + cnt")
      case False
      with h ne show ?thesis by (auto simp add: NewLines_step intro: N_keep)
    next
      case True
      with h ne have "Flush n ind (w\<lparr>m_seqnum := m_seqnum w + cnt\<rparr>) = Some w'"
        by (simp add: NewLines_step)
      from N_flush[OF ne True f[OF this] this] show ?thesis .
    qed
  qed
  have F: "PF w w'" if h: "Flush (Suc n) ind w = Some w'" for w w'
  proof (cases "m_skipped w = []")
    case True
    with h show ?thesis by (auto simp add: Flush_step intro: F_sync)
  next
    case False
    with h have "ReAddSkipped n ind ((committed ind w)\<lparr>m_skipped := survivors w\<rparr>) = Some w'"
      by (simp add: Flush_step)
    from F_replay[OF False r[OF this] this] show ?thesis .
  qed
  show ?case using A R L N F by blast
qed

text \<open>More fuel does not change a result.\<close>

lemma fuel_Suc:
  "(\<forall>w pc s w'. Add n ind w pc s = Some w' \<longrightarrow> Add (Suc n) ind w pc s = Some w') \<and>
   (\<forall>w w'. ReAddSkipped n ind w = Some w' \<longrightarrow> ReAddSkipped (Suc n) ind w = Some w') \<and>
   (\<forall>w idx w'. ReAdd_loop n ind w idx = Some w' \<longrightarrow> ReAdd_loop (Suc n) ind w idx = Some w') \<and>
   (\<forall>w cnt w'. NewLines n ind w cnt = Some w' \<longrightarrow> NewLines (Suc n) ind w cnt = Some w') \<and>
   (\<forall>w w'. Flush n ind w = Some w' \<longrightarrow> Flush (Suc n) ind w = Some w')"
proof (induction n)
  case 0
  show ?case by simp
next
  case (Suc n)
  have a: "\<And>w pc s w'. Add n ind w pc s = Some w' \<Longrightarrow> Add (Suc n) ind w pc s = Some w'"
    and r: "\<And>w w'. ReAddSkipped n ind w = Some w' \<Longrightarrow> ReAddSkipped (Suc n) ind w = Some w'"
    and l: "\<And>w idx w'. ReAdd_loop n ind w idx = Some w' \<Longrightarrow> ReAdd_loop (Suc n) ind w idx = Some w'"
    and nl: "\<And>w cnt w'. NewLines n ind w cnt = Some w' \<Longrightarrow> NewLines (Suc n) ind w cnt = Some w'"
    and f: "\<And>w w'. Flush n ind w = Some w' \<Longrightarrow> Flush (Suc n) ind w = Some w'"
    using Suc.IH by blast+
  have A: "Add (Suc (Suc n)) ind w pc s = Some w'" if h: "Add (Suc n) ind w pc s = Some w'" for w pc s w'
  proof (cases "in_window w pc \<and> m_max_col w < endcol w pc \<and> m_skipped w \<noteq> []")
    case True
    with h have "ReAddSkipped n ind (grown w pc s) = Some w'" by (simp add: Add_step)
    from r[OF this] True show ?thesis by (simp add: Add_step[of "Suc n"])
  next
    case False
    with h show ?thesis by (auto simp add: Add_step)
  qed
  have R: "ReAddSkipped (Suc (Suc n)) ind w = Some w'" if h: "ReAddSkipped (Suc n) ind w = Some w'" for w w'
  proof (cases "m_skipped w = []")
    case True
    with h show ?thesis by (simp add: ReAddSkipped_step)
  next
    case False
    with h obtain w3 where 1: "ReAdd_loop n ind (snapshot w) 0 = Some w3"
      and 2: "NewLines n ind w3 0 = Some w'"
      by (auto simp add: ReAddSkipped_step split: option.splits)
    from l[OF 1] nl[OF 2] False show ?thesis by (simp add: ReAddSkipped_step[of "Suc n"])
  qed
  have L: "ReAdd_loop (Suc (Suc n)) ind w idx = Some w'" if h: "ReAdd_loop (Suc n) ind w idx = Some w'" for w idx w'
  proof (cases "idx < length (m_scratch w)")
    case False
    with h show ?thesis by (simp add: ReAdd_loop_step)
  next
    case True
    with h obtain w1
      where 1: "Add n ind w (m_pc (m_scratch w ! idx)) (e_seqnum (m_scratch w ! idx)) = Some w1"
      and 2: "ReAdd_loop n ind w1 (Suc idx) = Some w'"
      by (auto simp add: ReAdd_loop_step split: option.splits)
    from a[OF 1] l[OF 2] True show ?thesis by (simp add: ReAdd_loop_step[of "Suc n"])
  qed
  have N: "NewLines (Suc (Suc n)) ind w cnt = Some w'" if h: "NewLines (Suc n) ind w cnt = Some w'" for w cnt w'
  proof (cases "m_aligned w \<noteq> [] \<and> m_nl_seqnum w + m_span w < m_seqnum w + cnt")
    case True
    with h have "Flush n ind (w\<lparr>m_seqnum := m_seqnum w + cnt\<rparr>) = Some w'"
      by (simp add: NewLines_step)
    from f[OF this] True show ?thesis by (simp add: NewLines_step[of "Suc n"])
  next
    case False
    with h show ?thesis by (auto simp add: NewLines_step)
  qed
  have F: "Flush (Suc (Suc n)) ind w = Some w'" if h: "Flush (Suc n) ind w = Some w'" for w w'
  proof (cases "m_skipped w = []")
    case True
    with h show ?thesis by (simp add: Flush_step)
  next
    case False
    with h have "ReAddSkipped n ind ((committed ind w)\<lparr>m_skipped := survivors w\<rparr>) = Some w'"
      by (simp add: Flush_step)
    from r[OF this] False show ?thesis by (simp add: Flush_step[of "Suc n"])
  qed
  show ?case using A R L N F by blast
qed

lemma Add_fuel: "Add n ind w pc s = Some w' \<Longrightarrow> n \<le> m \<Longrightarrow> Add m ind w pc s = Some w'"
  by (induction m) (use fuel_Suc le_Suc_eq in \<open>auto\<close>)

lemma ReAddSkipped_fuel:
  "ReAddSkipped n ind w = Some w' \<Longrightarrow> n \<le> m \<Longrightarrow> ReAddSkipped m ind w = Some w'"
  by (induction m) (use fuel_Suc le_Suc_eq in \<open>auto\<close>)

lemma ReAdd_loop_fuel:
  "ReAdd_loop n ind w idx = Some w' \<Longrightarrow> n \<le> m \<Longrightarrow> ReAdd_loop m ind w idx = Some w'"
  by (induction m) (use fuel_Suc le_Suc_eq in \<open>auto\<close>)

lemma NewLines_fuel:
  "NewLines n ind w cnt = Some w' \<Longrightarrow> n \<le> m \<Longrightarrow> NewLines m ind w cnt = Some w'"
  by (induction m) (use fuel_Suc le_Suc_eq in \<open>auto\<close>)

lemma Flush_fuel: "Flush n ind w = Some w' \<Longrightarrow> n \<le> m \<Longrightarrow> Flush m ind w = Some w'"
  by (induction m) (use fuel_Suc le_Suc_eq in \<open>auto\<close>)

section \<open>The fields of the named states\<close>

lemma committed_fields [simp]:
  "m_aligned (committed ind w) = []"
  "m_skipped (committed ind w) = m_skipped w"
  "m_scratch (committed ind w) = m_scratch w"
  "m_max_col (committed ind w) = 0"
  "m_span (committed ind w) = m_span w"
  "m_thresh (committed ind w) = m_thresh w"
  "m_nl_seqnum (committed ind w) = m_nl_seqnum w"
  "m_seqnum (committed ind w) = m_seqnum w"
  "applied (committed ind w) = applied w @ flush_calls w"
  "len (chunks (committed ind w) p) = len (chunks w p)"
  by (simp_all add: committed_def Flush_loop_fields Flush_loop_applied Flush_loop_len
      flush_calls_def)

lemma to_aligned_fields [simp]:
  "m_aligned (to_aligned w pc s) = m_aligned w @ [\<lparr>m_pc = pc, e_seqnum = seq_arg w s\<rparr>]"
  "m_skipped (to_aligned w pc s) = m_skipped w"
  "m_scratch (to_aligned w pc s) = m_scratch w"
  "m_max_col (to_aligned w pc s) = m_max_col w"
  "m_span (to_aligned w pc s) = m_span w"
  "m_thresh (to_aligned w pc s) = m_thresh w"
  "m_nl_seqnum (to_aligned w pc s) = max (m_nl_seqnum w) (seq_arg w s)"
  "m_seqnum (to_aligned w pc s) = m_seqnum w"
  "applied (to_aligned w pc s) = applied w"
  "chunks (to_aligned w pc s) = chunks w"
  by (simp_all add: to_aligned_def)

lemma grown_fields [simp]:
  "m_aligned (grown w pc s) = m_aligned w @ [\<lparr>m_pc = pc, e_seqnum = seq_arg w s\<rparr>]"
  "m_skipped (grown w pc s) = m_skipped w"
  "m_scratch (grown w pc s) = m_scratch w"
  "m_max_col (grown w pc s) = endcol w pc"
  "m_span (grown w pc s) = m_span w"
  "m_thresh (grown w pc s) = m_thresh w"
  "m_nl_seqnum (grown w pc s) = max (m_nl_seqnum w) (seq_arg w s)"
  "m_seqnum (grown w pc s) = m_seqnum w"
  "applied (grown w pc s) = applied w"
  "chunks (grown w pc s) = chunks w"
  by (simp_all add: grown_def)

lemma to_skipped_fields [simp]:
  "m_aligned (to_skipped w pc s) = m_aligned w"
  "m_skipped (to_skipped w pc s) = m_skipped w @ [\<lparr>m_pc = pc, e_seqnum = seq_arg w s\<rparr>]"
  "m_scratch (to_skipped w pc s) = m_scratch w"
  "m_max_col (to_skipped w pc s) = m_max_col w"
  "m_span (to_skipped w pc s) = m_span w"
  "m_thresh (to_skipped w pc s) = m_thresh w"
  "m_nl_seqnum (to_skipped w pc s) = m_nl_seqnum w"
  "m_seqnum (to_skipped w pc s) = m_seqnum w"
  "applied (to_skipped w pc s) = applied w"
  "chunks (to_skipped w pc s) = chunks w"
  by (simp_all add: to_skipped_def)

lemma snapshot_fields [simp]:
  "m_aligned (snapshot w) = m_aligned w"
  "m_skipped (snapshot w) = []"
  "m_scratch (snapshot w) = m_skipped w"
  "m_max_col (snapshot w) = m_max_col w"
  "m_span (snapshot w) = m_span w"
  "m_thresh (snapshot w) = m_thresh w"
  "m_nl_seqnum (snapshot w) = m_nl_seqnum w"
  "m_seqnum (snapshot w) = m_seqnum w"
  "applied (snapshot w) = applied w"
  "chunks (snapshot w) = chunks w"
  by (simp_all add: snapshot_def)

section \<open>Every call returns\<close>

lemma length_survivors: "length (survivors w) \<le> length (m_skipped w)"
  by (simp add: survivors_def Zap_Collapse_def)

lemma sizes_all:
  "(\<forall>w pc s w'. Add n ind w pc s = Some w' \<longrightarrow> sizes_ok w 1 w') \<and>
   (\<forall>w w'. ReAddSkipped n ind w = Some w' \<longrightarrow> sizes_ok w 0 w') \<and>
   (\<forall>w idx w'. ReAdd_loop n ind w idx = Some w' \<longrightarrow> loop_sizes_ok w idx w') \<and>
   (\<forall>w cnt w'. NewLines n ind w cnt = Some w' \<longrightarrow> sizes_ok w 0 w') \<and>
   (\<forall>w w'. Flush n ind w = Some w' \<longrightarrow> sizes_ok w 0 w')"
proof (rule calls_induct, goal_cases)
  case (1 w pc s)
  show ?case by (simp add: sizes_ok_def)
next
  case (2 w pc s)
  show ?case by (simp add: sizes_ok_def)
next
  case (3 w pc s)
  show ?case by (simp add: sizes_ok_def)
next
  case (4 w pc s w')
  then show ?case by (simp add: sizes_ok_def)
next
  case (5 w)
  show ?case by (simp add: sizes_ok_def)
next
  case (6 w w3 w')
  then show ?case by (auto simp add: sizes_ok_def loop_sizes_ok_def)
next
  case (7 w idx)
  show ?case by (simp add: loop_sizes_ok_def)
next
  case (8 w idx w1 w')
  show ?case
    unfolding loop_sizes_ok_def
  proof
    assume inv: "length (m_skipped w) \<le> idx"
    from 8(2) have a1: "length (m_aligned w1) + length (m_skipped w1) \<le>
        length (m_aligned w) + length (m_skipped w) + 1"
      and a2: "length (m_skipped w1) \<le> length (m_skipped w) + 1"
      and a3: "m_scratch w1 = m_scratch w \<or> length (m_scratch w1) \<le> length (m_skipped w)"
      by (simp_all add: sizes_ok_def)
    from a2 inv have inv1: "length (m_skipped w1) \<le> Suc idx" by simp
    from a3 inv 8(1) have c1: "length (m_scratch w1) \<le> length (m_scratch w)" by auto
    from 8(3) inv1 have b1: "length (m_aligned w') + length (m_skipped w') \<le>
        length (m_aligned w1) + length (m_skipped w1) + (length (m_scratch w1) - Suc idx)"
      and b2: "length (m_skipped w') \<le> length (m_skipped w1) + (length (m_scratch w1) - Suc idx)"
      and b3: "length (m_scratch w') \<le> max (length (m_scratch w1)) (Suc idx)"
      by (simp_all add: loop_sizes_ok_def)
    from a1 a2 b1 b2 b3 c1 8(1)
    show "length (m_aligned w') + length (m_skipped w') \<le>
        length (m_aligned w) + length (m_skipped w) + (length (m_scratch w) - idx) \<and>
      length (m_skipped w') \<le> length (m_skipped w) + (length (m_scratch w) - idx) \<and>
      length (m_scratch w') \<le> max (length (m_scratch w)) idx"
      by linarith
  qed
next
  case (9 w cnt)
  show ?case by (simp add: sizes_ok_def)
next
  case (10 w cnt)
  show ?case by (simp add: sizes_ok_def)
next
  case (11 w cnt w')
  then show ?case by (simp add: sizes_ok_def)
next
  case (12 w)
  show ?case by (simp add: sizes_ok_def)
next
  case (13 w w')
  then show ?case using length_survivors[of w] by (auto simp add: sizes_ok_def)
qed

lemma End_step:
  "End n ind w =
     (if m_aligned w \<noteq> [] then map_option cleared (Flush n ind w) else Some (cleared w))"
  by (simp add: End_def cleared_def Empty_def Reset_def split: option.splits)

lemma cleared_fields [simp]:
  "m_aligned (cleared w) = []"
  "m_skipped (cleared w) = []"
  "m_scratch (cleared w) = m_scratch w"
  "m_max_col (cleared w) = m_max_col w"
  "m_span (cleared w) = m_span w"
  "m_thresh (cleared w) = m_thresh w"
  "m_nl_seqnum (cleared w) = m_nl_seqnum w"
  "m_seqnum (cleared w) = m_seqnum w"
  "applied (cleared w) = applied w"
  "chunks (cleared w) = chunks w"
  by (simp_all add: cleared_def)


lemma Add_sizes: "Add n ind w pc s = Some w' \<Longrightarrow> sizes_ok w 1 w'"
  using sizes_all[of n ind] by blast

lemma ReAddSkipped_sizes: "ReAddSkipped n ind w = Some w' \<Longrightarrow> sizes_ok w 0 w'"
  using sizes_all[of n ind] by blast

lemma ReAdd_loop_sizes: "ReAdd_loop n ind w idx = Some w' \<Longrightarrow> loop_sizes_ok w idx w'"
  using sizes_all[of n ind] by blast

lemma NewLines_sizes: "NewLines n ind w cnt = Some w' \<Longrightarrow> sizes_ok w 0 w'"
  using sizes_all[of n ind] by blast

lemma Flush_sizes: "Flush n ind w = Some w' \<Longrightarrow> sizes_ok w 0 w'"
  using sizes_all[of n ind] by blast

lemma smaller_config:
  "held y \<le> held k \<Longrightarrow> waiting y \<le> waiting k \<Longrightarrow> rank y < rank k \<Longrightarrow>
   (y, k) \<in> measures [held, waiting, rank]"
  "held y \<le> held k \<Longrightarrow> waiting y < waiting k \<Longrightarrow> (y, k) \<in> measures [held, waiting, rank]"
  "held y < held k \<Longrightarrow> (y, k) \<in> measures [held, waiting, rank]"
  by (auto simp add: le_less)

lemma ready_returns: "ready k \<Longrightarrow> \<exists>n. returns n ind k"
proof -
  have "wf (measures [held, waiting, rank])" by simp
  then show "ready k \<Longrightarrow> \<exists>n. returns n ind k"
  proof (induction k rule: wf_induct_rule)
    case (less k)
    show ?case
    proof (cases k)
      case (K_Add w pc s)
      show ?thesis
      proof (cases "in_window w pc \<and> m_max_col w < endcol w pc \<and> m_skipped w \<noteq> []")
        case False
        then have "Add (Suc 0) ind w pc s \<noteq> None" by (auto simp add: Add_step)
        then show ?thesis unfolding K_Add by (intro exI[of _ "Suc 0"]) simp
      next
        case True
        have "(K_ReAddSkipped (grown w pc s), k) \<in> measures [held, waiting, rank]"
          unfolding K_Add by (rule smaller_config(2)) simp_all
        from less.IH[OF this] obtain n where "ReAddSkipped n ind (grown w pc s) \<noteq> None"
          by auto
        with True have "Add (Suc n) ind w pc s \<noteq> None" by (simp add: Add_step)
        then show ?thesis unfolding K_Add by (intro exI[of _ "Suc n"]) simp
      qed
    next
      case (K_ReAddSkipped w)
      show ?thesis
      proof (cases "m_skipped w = []")
        case True
        then have "ReAddSkipped (Suc 0) ind w \<noteq> None" by (simp add: ReAddSkipped_step)
        then show ?thesis unfolding K_ReAddSkipped by (intro exI[of _ "Suc 0"]) simp
      next
        case False
        have "(K_ReAdd_loop (snapshot w) 0, k) \<in> measures [held, waiting, rank]"
          unfolding K_ReAddSkipped by (rule smaller_config(1)) simp_all
        from less.IH[OF this] obtain n1 w3 where 1: "ReAdd_loop n1 ind (snapshot w) 0 = Some w3"
          by auto
        from ReAdd_loop_sizes[OF 1]
        have s3: "length (m_aligned w3) + length (m_skipped w3) \<le>
            length (m_aligned w) + length (m_skipped w)"
          "length (m_skipped w3) \<le> length (m_skipped w)"
          by (simp_all add: loop_sizes_ok_def)
        have "(K_NewLines w3 0, k) \<in> measures [held, waiting, rank]"
          unfolding K_ReAddSkipped using s3 by (intro smaller_config(1)) simp_all
        from less.IH[OF this] obtain n2 w' where 2: "NewLines n2 ind w3 0 = Some w'"
          by auto
        from ReAdd_loop_fuel[OF 1, of "max n1 n2"] NewLines_fuel[OF 2, of "max n1 n2"] False
        have "ReAddSkipped (Suc (max n1 n2)) ind w = Some w'"
          by (simp add: ReAddSkipped_step)
        then show ?thesis unfolding K_ReAddSkipped by (intro exI[of _ "Suc (max n1 n2)"]) simp
      qed
    next
      case (K_ReAdd_loop w idx)
      with less.prems have inv: "length (m_skipped w) \<le> idx" by simp
      show ?thesis
      proof (cases "idx < length (m_scratch w)")
        case False
        then have "ReAdd_loop (Suc 0) ind w idx \<noteq> None" by (simp add: ReAdd_loop_step)
        then show ?thesis unfolding K_ReAdd_loop by (intro exI[of _ "Suc 0"]) simp
      next
        case True
        let ?pc = "m_pc (m_scratch w ! idx)" and ?s = "e_seqnum (m_scratch w ! idx)"
        have "(K_Add w ?pc ?s, k) \<in> measures [held, waiting, rank]"
          unfolding K_ReAdd_loop using True by (intro smaller_config(1)) simp_all
        from less.IH[OF this] obtain n1 w1 where 1: "Add n1 ind w ?pc ?s = Some w1"
          by auto
        from Add_sizes[OF 1]
        have a1: "length (m_aligned w1) + length (m_skipped w1) \<le>
            length (m_aligned w) + length (m_skipped w) + 1"
          and a2: "length (m_skipped w1) \<le> length (m_skipped w) + 1"
          and a3: "m_scratch w1 = m_scratch w \<or> length (m_scratch w1) \<le> length (m_skipped w)"
          by (simp_all add: sizes_ok_def)
        from a3 inv True have c1: "length (m_scratch w1) \<le> length (m_scratch w)" by auto
        have "(K_ReAdd_loop w1 (Suc idx), k) \<in> measures [held, waiting, rank]"
          unfolding K_ReAdd_loop using True a1 a2 c1 by (intro smaller_config(1)) simp_all
        moreover have "ready (K_ReAdd_loop w1 (Suc idx))" using a2 inv by simp
        ultimately obtain n2 w' where 2: "ReAdd_loop n2 ind w1 (Suc idx) = Some w'"
          using less.IH by fastforce
        from Add_fuel[OF 1, of "max n1 n2"] ReAdd_loop_fuel[OF 2, of "max n1 n2"] True
        have "ReAdd_loop (Suc (max n1 n2)) ind w idx = Some w'"
          by (simp add: ReAdd_loop_step)
        then show ?thesis unfolding K_ReAdd_loop by (intro exI[of _ "Suc (max n1 n2)"]) simp
      qed
    next
      case (K_NewLines w cnt)
      show ?thesis
      proof (cases "m_aligned w \<noteq> [] \<and> m_nl_seqnum w + m_span w < m_seqnum w + cnt")
        case False
        then have "NewLines (Suc 0) ind w cnt \<noteq> None" by (auto simp add: NewLines_step)
        then show ?thesis unfolding K_NewLines by (intro exI[of _ "Suc 0"]) simp
      next
        case True
        let ?w1 = "w\<lparr>m_seqnum := m_seqnum w + cnt\<rparr>"
        have "(K_Flush ?w1, k) \<in> measures [held, waiting, rank]"
          unfolding K_NewLines by (rule smaller_config(1)) simp_all
        moreover have "ready (K_Flush ?w1)" using True by simp
        ultimately obtain n where "Flush n ind ?w1 \<noteq> None"
          using less.IH by fastforce
        with True have "NewLines (Suc n) ind w cnt \<noteq> None" by (simp add: NewLines_step)
        then show ?thesis unfolding K_NewLines by (intro exI[of _ "Suc n"]) simp
      qed
    next
      case (K_Flush w)
      with less.prems have ne: "m_aligned w \<noteq> []" by simp
      show ?thesis
      proof (cases "m_skipped w = []")
        case True
        then have "Flush (Suc 0) ind w \<noteq> None" by (simp add: Flush_step)
        then show ?thesis unfolding K_Flush by (intro exI[of _ "Suc 0"]) simp
      next
        case False
        let ?w1 = "(committed ind w)\<lparr>m_skipped := survivors w\<rparr>"
        have "(K_ReAddSkipped ?w1, k) \<in> measures [held, waiting, rank]"
          unfolding K_Flush using ne length_survivors[of w]
          by (intro smaller_config(3)) (cases "m_aligned w", simp_all)
        from less.IH[OF this] obtain n where "ReAddSkipped n ind ?w1 \<noteq> None"
          by auto
        with False have "Flush (Suc n) ind w \<noteq> None" by (simp add: Flush_step)
        then show ?thesis unfolding K_Flush by (intro exI[of _ "Suc n"]) simp
      qed
    qed
  qed
qed

theorem Add_returns: "\<exists>n w'. Add n ind w pc s = Some w'"
  using ready_returns[of "K_Add w pc s" ind] by auto

theorem ReAddSkipped_returns: "\<exists>n w'. ReAddSkipped n ind w = Some w'"
  using ready_returns[of "K_ReAddSkipped w" ind] by auto

theorem NewLines_returns: "\<exists>n w'. NewLines n ind w cnt = Some w'"
  using ready_returns[of "K_NewLines w cnt" ind] by auto

theorem Flush_returns: "\<exists>n w'. Flush n ind w = Some w'"
proof (cases "m_skipped w = []")
  case True
  then have "Flush (Suc 0) ind w = Some ((committed ind w)\<lparr>m_nl_seqnum := m_seqnum w\<rparr>)"
    by (simp add: Flush_step)
  then show ?thesis by blast
next
  case False
  from ReAddSkipped_returns obtain n w'
    where "ReAddSkipped n ind ((committed ind w)\<lparr>m_skipped := survivors w\<rparr>) = Some w'"
    by blast
  with False have "Flush (Suc n) ind w = Some w'" by (simp add: Flush_step)
  then show ?thesis by blast
qed

theorem End_returns: "\<exists>n w'. End n ind w = Some w'"
proof -
  from Flush_returns obtain n w1 where "Flush n ind w = Some w1" by blast
  then have "End n ind w = Some (if m_aligned w \<noteq> [] then cleared w1 else cleared w)"
    by (simp add: End_step)
  then show ?thesis by blast
qed

section \<open>Calls of the column applier\<close>

lemma follows_refl: "follows w w"
  by (simp add: follows_def)

lemma follows_trans:
  assumes "follows w w1" and "follows w1 w2"
  shows "follows w w2"
proof -
  from assms(1) obtain cs1 where 1: "applied w1 = applied w @ cs1"
    and d1: "(cs1 = [] \<and> (\<exists>xs. m_aligned w1 = m_aligned w @ xs)) \<or>
             m_pc ` set (m_aligned w) \<subseteq> fst ` set cs1"
    unfolding follows_def by blast
  from assms(2) obtain cs2 where 2: "applied w2 = applied w1 @ cs2"
    and d2: "(cs2 = [] \<and> (\<exists>xs. m_aligned w2 = m_aligned w1 @ xs)) \<or>
             m_pc ` set (m_aligned w1) \<subseteq> fst ` set cs2"
    unfolding follows_def by blast
  have "(cs1 @ cs2 = [] \<and> (\<exists>xs. m_aligned w2 = m_aligned w @ xs)) \<or>
        m_pc ` set (m_aligned w) \<subseteq> fst ` set (cs1 @ cs2)"
  proof (cases "m_pc ` set (m_aligned w) \<subseteq> fst ` set cs1")
    case True
    then show ?thesis by auto
  next
    case False
    with d1 obtain xs where c1: "cs1 = []" and a1: "m_aligned w1 = m_aligned w @ xs" by blast
    from d2 show ?thesis
    proof
      assume "cs2 = [] \<and> (\<exists>xs. m_aligned w2 = m_aligned w1 @ xs)"
      with c1 a1 show ?thesis by auto
    next
      assume "m_pc ` set (m_aligned w1) \<subseteq> fst ` set cs2"
      with a1 have "m_pc ` set (m_aligned w) \<subseteq> fst ` set cs2" by auto
      then show ?thesis by auto
    qed
  qed
  with 1 2 show ?thesis unfolding follows_def by (intro exI[of _ "cs1 @ cs2"]) simp
qed

lemma follows_same:
  "applied w' = applied w \<Longrightarrow> m_aligned w' = m_aligned w @ xs \<Longrightarrow> follows w w'"
  by (simp add: follows_def)

lemma follows_committed:
  "applied w' = applied (committed ind w) \<Longrightarrow> m_aligned w' = [] \<Longrightarrow> follows w w'"
  unfolding follows_def
  by (rule exI[of _ "flush_calls w"]) (force simp add: flush_calls_def)

lemma follows_all:
  "(\<forall>w pc s w'. Add n ind w pc s = Some w' \<longrightarrow> follows w w') \<and>
   (\<forall>w w'. ReAddSkipped n ind w = Some w' \<longrightarrow> follows w w') \<and>
   (\<forall>w idx w'. ReAdd_loop n ind w idx = Some w' \<longrightarrow> follows w w') \<and>
   (\<forall>w cnt w'. NewLines n ind w cnt = Some w' \<longrightarrow> follows w w') \<and>
   (\<forall>w w'. Flush n ind w = Some w' \<longrightarrow> follows w w')"
proof (rule calls_induct, goal_cases)
  case (1 w pc s)
  show ?case by (rule follows_same[of _ _ "[]"]) simp_all
next
  case (2 w pc s)
  show ?case by (rule follows_same) simp_all
next
  case (3 w pc s)
  show ?case by (rule follows_same) simp_all
next
  case (4 w pc s w')
  have "follows w (grown w pc s)" by (rule follows_same) simp_all
  with 4(4) show ?case by (rule follows_trans[rotated])
next
  case (5 w)
  show ?case by (rule follows_refl)
next
  case (6 w w3 w')
  have "follows w (snapshot w)" by (rule follows_same[of _ _ "[]"]) simp_all
  from follows_trans[OF follows_trans[OF this 6(2)] 6(3)] show ?case .
next
  case (7 w idx)
  show ?case by (rule follows_refl)
next
  case (8 w idx w1 w')
  from follows_trans[OF 8(2) 8(3)] show ?case .
next
  case (9 w cnt)
  show ?case by (rule follows_refl)
next
  case (10 w cnt)
  show ?case by (rule follows_same[of _ _ "[]"]) simp_all
next
  case (11 w cnt w')
  have "follows w (w\<lparr>m_seqnum := m_seqnum w + cnt\<rparr>)"
    by (rule follows_same[of _ _ "[]"]) simp_all
  from follows_trans[OF this 11(3)] show ?case .
next
  case (12 w)
  show ?case by (rule follows_committed[of _ ind]) simp_all
next
  case (13 w w')
  have "follows w ((committed ind w)\<lparr>m_skipped := survivors w\<rparr>)"
    by (rule follows_committed[of _ ind]) simp_all
  from follows_trans[OF this 13(2)] show ?case .
qed

lemma ReAddSkipped_follows: "ReAddSkipped n ind w = Some w' \<Longrightarrow> follows w w'"
  using follows_all[of n ind] by blast

lemma Flush_follows: "Flush n ind w = Some w' \<Longrightarrow> follows w w'"
  using follows_all[of n ind] by blast

lemma Flush_applied:
  assumes "Flush n ind w = Some w'"
  shows "\<exists>cs. applied w' = applied w @ flush_calls w @ cs"
proof (cases n)
  case 0
  with assms show ?thesis by simp
next
  case (Suc m)
  show ?thesis
  proof (cases "m_skipped w = []")
    case True
    with assms Suc show ?thesis by (auto simp add: Flush_step)
  next
    case False
    with assms Suc
    have "ReAddSkipped m ind ((committed ind w)\<lparr>m_skipped := survivors w\<rparr>) = Some w'"
      by (simp add: Flush_step)
    from ReAddSkipped_follows[OF this] show ?thesis by (auto simp add: follows_def)
  qed
qed

text \<open>
  C4. With Aligned non-empty, span \<open>S\<close> and \<open>nl_seqnum = N\<close>, a call of \<open>NewLines\<close> runs
  \<open>Flush\<close> exactly when the updated \<open>seqnum\<close> exceeds \<open>N + S\<close>: then the result is that of
  \<open>Flush\<close> on the state with the updated counter, and the column applier is called (first
  on the entries of Aligned); when the updated \<open>seqnum\<close> is at most \<open>N + S\<close>, only the
  counter changes. So the least updated \<open>seqnum\<close> that forces a flush is \<open>N + S + 1\<close>.
\<close>

theorem NewLines_flushes_iff_span_exceeded:
  assumes "m_aligned w \<noteq> []"
  shows "\<exists>n w'. NewLines (Suc n) ind w cnt = Some w' \<and>
           (applied w' \<noteq> applied w) = (m_nl_seqnum w + m_span w < m_seqnum w + cnt) \<and>
           (if m_nl_seqnum w + m_span w + 1 \<le> m_seqnum w + cnt
            then Flush n ind (w\<lparr>m_seqnum := m_seqnum w + cnt\<rparr>) = Some w' \<and>
                 (\<exists>cs. applied w' = applied w @ flush_calls w @ cs)
            else w' = w\<lparr>m_seqnum := m_seqnum w + cnt\<rparr>)"
proof (cases "m_nl_seqnum w + m_span w < m_seqnum w + cnt")
  case False
  with assms have "NewLines (Suc 0) ind w cnt = Some (w\<lparr>m_seqnum := m_seqnum w + cnt\<rparr>)"
    by (simp add: NewLines_step)
  with False show ?thesis by (intro exI[of _ 0]) simp
next
  case True
  let ?w1 = "w\<lparr>m_seqnum := m_seqnum w + cnt\<rparr>"
  from Flush_returns obtain n w' where f: "Flush n ind ?w1 = Some w'" by blast
  from Flush_applied[OF f] obtain cs where cs: "applied w' = applied w @ flush_calls w @ cs"
    by (auto simp add: flush_calls_def)
  from assms have "flush_calls w \<noteq> []" by (simp add: flush_calls_def)
  with cs have "applied w' \<noteq> applied w" by simp
  moreover from assms True f have "NewLines (Suc n) ind w cnt = Some w'"
    by (simp add: NewLines_step)
  ultimately show ?thesis using True f cs by (intro exI[of _ n] exI[of _ w']) auto
qed

theorem NewLines_flushes_iff_span_exceeded_witness:
  "m_aligned pending_one \<noteq> [] \<and>
   (\<exists>n w'. NewLines (Suc n) set_column pending_one 5 = Some w' \<and>
      applied w' \<noteq> applied pending_one \<and>
      Flush n set_column (pending_one\<lparr>m_seqnum := 5\<rparr>) = Some w' \<and>
      (\<exists>cs. applied w' = [(0, 10)] @ cs))"
  using NewLines_flushes_iff_span_exceeded[of pending_one set_column 5]
  by (simp add: pending_one_def flush_calls_def doc_of_def)

lemma Flush_no_survivors:
  assumes "survivors w = []"
  shows "Flush (Suc (Suc 0)) ind w =
           Some (if m_skipped w = [] then (committed ind w)\<lparr>m_nl_seqnum := m_seqnum w\<rparr>
                 else (committed ind w)\<lparr>m_skipped := []\<rparr>)"
  using assms by (simp add: Flush_step ReAddSkipped_step)

lemma in_group_refl: "in_group w w"
  by (simp add: in_group_def)

lemma in_group_same:
  "applied w' = applied w \<Longrightarrow> chunks w' = chunks w \<Longrightarrow> m_aligned w' = m_aligned w @ xs \<Longrightarrow>
   in_group w w'"
  by (simp add: in_group_def)

lemma in_group_committed:
  assumes "applied w' = applied (committed ind w)" and "chunks w' = chunks (committed ind w)"
  shows "in_group w w'"
proof -
  have "applied w' = applied w @
      map (\<lambda>ce. (m_pc ce, m_max_col w - len (chunks w (m_pc ce)))) (m_aligned w @ []) @ []"
    using assms(1) by (simp add: flush_calls_def)
  moreover have "\<forall>p. len (chunks w' p) = len (chunks w p)" using assms(2) by simp
  ultimately show ?thesis unfolding in_group_def by blast
qed

lemma in_group_trans:
  assumes "in_group w w1" and "in_group w1 w2"
  shows "in_group w w2"
proof -
  from assms(1) have l1: "\<forall>p. len (chunks w1 p) = len (chunks w p)"
    unfolding in_group_def by blast
  from assms(2) have l2: "\<forall>p. len (chunks w2 p) = len (chunks w1 p)"
    unfolding in_group_def by blast
  from assms(1) obtain cs1 where 1: "applied w1 = applied w @ cs1"
    and d1: "(cs1 = [] \<and> (\<exists>xs. m_aligned w1 = m_aligned w @ xs)) \<or>
             (\<exists>xs M rest.
                cs1 = map (\<lambda>ce. (m_pc ce, M - len (chunks w (m_pc ce)))) (m_aligned w @ xs) @ rest)"
    unfolding in_group_def by blast
  from assms(2) obtain cs2 where 2: "applied w2 = applied w1 @ cs2"
    and d2: "(cs2 = [] \<and> (\<exists>xs. m_aligned w2 = m_aligned w1 @ xs)) \<or>
             (\<exists>xs M rest.
                cs2 = map (\<lambda>ce. (m_pc ce, M - len (chunks w1 (m_pc ce)))) (m_aligned w1 @ xs) @ rest)"
    unfolding in_group_def by blast
  have d: "(cs1 @ cs2 = [] \<and> (\<exists>xs. m_aligned w2 = m_aligned w @ xs)) \<or>
        (\<exists>xs M rest.
           cs1 @ cs2 =
             map (\<lambda>ce. (m_pc ce, M - len (chunks w (m_pc ce)))) (m_aligned w @ xs) @ rest)"
    using d1
  proof
    assume "\<exists>xs M rest.
        cs1 = map (\<lambda>ce. (m_pc ce, M - len (chunks w (m_pc ce)))) (m_aligned w @ xs) @ rest"
    then obtain xs M rest
      where "cs1 = map (\<lambda>ce. (m_pc ce, M - len (chunks w (m_pc ce)))) (m_aligned w @ xs) @ rest"
      by blast
    then have "cs1 @ cs2 =
        map (\<lambda>ce. (m_pc ce, M - len (chunks w (m_pc ce)))) (m_aligned w @ xs) @ (rest @ cs2)"
      by simp
    then show ?thesis by blast
  next
    assume "cs1 = [] \<and> (\<exists>xs. m_aligned w1 = m_aligned w @ xs)"
    then obtain xs1 where c1: "cs1 = []" and a1: "m_aligned w1 = m_aligned w @ xs1" by blast
    from d2 show ?thesis
    proof
      assume "cs2 = [] \<and> (\<exists>xs. m_aligned w2 = m_aligned w1 @ xs)"
      with c1 a1 show ?thesis by auto
    next
      assume "\<exists>xs M rest.
          cs2 = map (\<lambda>ce. (m_pc ce, M - len (chunks w1 (m_pc ce)))) (m_aligned w1 @ xs) @ rest"
      then obtain xs M rest
        where "cs2 = map (\<lambda>ce. (m_pc ce, M - len (chunks w1 (m_pc ce)))) (m_aligned w1 @ xs) @ rest"
        by blast
      with l1 a1 c1 have "cs1 @ cs2 =
          map (\<lambda>ce. (m_pc ce, M - len (chunks w (m_pc ce)))) (m_aligned w @ (xs1 @ xs)) @ rest"
        by simp
      then show ?thesis by blast
    qed
  qed
  from l1 l2 have "\<forall>p. len (chunks w2 p) = len (chunks w p)" by simp
  moreover from 1 2 have "applied w2 = applied w @ (cs1 @ cs2)" by simp
  ultimately show ?thesis unfolding in_group_def using d by blast
qed

lemma in_group_all:
  "(\<forall>w pc s w'. Add n ind w pc s = Some w' \<longrightarrow> in_group w w') \<and>
   (\<forall>w w'. ReAddSkipped n ind w = Some w' \<longrightarrow> in_group w w') \<and>
   (\<forall>w idx w'. ReAdd_loop n ind w idx = Some w' \<longrightarrow> in_group w w') \<and>
   (\<forall>w cnt w'. NewLines n ind w cnt = Some w' \<longrightarrow> in_group w w') \<and>
   (\<forall>w w'. Flush n ind w = Some w' \<longrightarrow> in_group w w')"
proof (rule calls_induct, goal_cases)
  case (1 w pc s)
  show ?case by (rule in_group_same[of _ _ "[]"]) simp_all
next
  case (2 w pc s)
  show ?case by (rule in_group_same) simp_all
next
  case (3 w pc s)
  show ?case by (rule in_group_same) simp_all
next
  case (4 w pc s w' n)
  have "in_group w (grown w pc s)" by (rule in_group_same) simp_all
  with 4(4) show ?case by (rule in_group_trans[rotated])
next
  case (5 w)
  show ?case by (rule in_group_refl)
next
  case (6 w w3 w' n)
  have "in_group w (snapshot w)" by (rule in_group_same[of _ _ "[]"]) simp_all
  from in_group_trans[OF in_group_trans[OF this 6(2)] 6(3)] show ?case .
next
  case (7 w idx)
  show ?case by (rule in_group_refl)
next
  case (8 w idx w1 w' n)
  from in_group_trans[OF 8(2) 8(3)] show ?case .
next
  case (9 w cnt)
  show ?case by (rule in_group_refl)
next
  case (10 w cnt)
  show ?case by (rule in_group_same[of _ _ "[]"]) simp_all
next
  case (11 w cnt w' n)
  have "in_group w (w\<lparr>m_seqnum := m_seqnum w + cnt\<rparr>)"
    by (rule in_group_same[of _ _ "[]"]) simp_all
  from in_group_trans[OF this 11(3)] show ?case .
next
  case (12 w)
  show ?case by (rule in_group_committed[of _ ind]) simp_all
next
  case (13 w w' n)
  have "in_group w ((committed ind w)\<lparr>m_skipped := survivors w\<rparr>)"
    by (rule in_group_committed[of _ ind]) simp_all
  from in_group_trans[OF this 13(2)] show ?case .
qed

lemma ReAddSkipped_in_group: "ReAddSkipped n ind w = Some w' \<Longrightarrow> in_group w w'"
  using in_group_all[of n ind] by blast


text \<open>
  C1. \<open>Add\<close> returns, and the threshold test alone decides where it puts the token. If
  \<open>max_col = 0\<close>, or the threshold is \<open>0\<close>, or the token's column lies in
  \<open>[max_col - T, max_col + T]\<close>, the token is appended to Aligned and not to Skipped. When no
  replay follows (the token's end does not exceed \<open>max_col\<close>, or Skipped is empty) the
  result is the old state with the entry appended to Aligned, \<open>nl_seqnum\<close> raised to the
  entry's sequence number and \<open>max_col\<close> raised to the token's end. When a replay follows,
  the result is that of \<open>ReAddSkipped\<close> on this state; then Skipped has not grown, and either
  no call of the column applier was made and Aligned is the old Aligned, then the token,
  then the entries the replay re-admitted, or the calls made begin with the flush of such
  a group, the token at its place after the old entries. Otherwise the token is appended to
  Skipped and nothing else of the state changes.
\<close>

theorem Add_places_token:
  "(\<exists>n w'. Add n ind w pc s = Some w') \<and>
   (\<forall>n w'. Add n ind w pc s = Some w' \<longrightarrow>
      (if m_max_col w = 0 \<or> m_thresh w = 0 \<or>
          (m_max_col w - m_thresh w \<le> column (chunks w pc) \<and>
           column (chunks w pc) \<le> m_max_col w + m_thresh w)
       then
         if m_max_col w < column (chunks w pc) + len (chunks w pc) \<and> m_skipped w \<noteq> []
         then
           (\<exists>m. ReAddSkipped m ind
                  (w\<lparr>m_nl_seqnum := max (m_nl_seqnum w) (seq_arg w s),
                     m_aligned := m_aligned w @ [\<lparr>m_pc = pc, e_seqnum = seq_arg w s\<rparr>],
                     m_max_col := column (chunks w pc) + len (chunks w pc)\<rparr>) = Some w') \<and>
           length (m_skipped w') \<le> length (m_skipped w) \<and>
           (\<exists>cs. applied w' = applied w @ cs \<and>
              ((cs = [] \<and>
                (\<exists>xs. m_aligned w' = m_aligned w @ \<lparr>m_pc = pc, e_seqnum = seq_arg w s\<rparr> # xs)) \<or>
               (\<exists>xs M rest.
                  cs = map (\<lambda>ce. (m_pc ce, M - len (chunks w (m_pc ce))))
                         (m_aligned w @ \<lparr>m_pc = pc, e_seqnum = seq_arg w s\<rparr> # xs) @ rest)))
         else
           w' = w\<lparr>m_nl_seqnum := max (m_nl_seqnum w) (seq_arg w s),
                  m_aligned := m_aligned w @ [\<lparr>m_pc = pc, e_seqnum = seq_arg w s\<rparr>],
                  m_max_col := max (m_max_col w) (column (chunks w pc) + len (chunks w pc))\<rparr>
       else w' = w\<lparr>m_skipped := m_skipped w @ [\<lparr>m_pc = pc, e_seqnum = seq_arg w s\<rparr>]\<rparr>))"
proof (intro conjI allI impI)
  show "\<exists>n w'. Add n ind w pc s = Some w'" by (rule Add_returns)
next
  fix n w'
  assume r: "Add n ind w pc s = Some w'"
  then obtain m where n: "n = Suc m" by (cases n) simp_all
  let ?e = "\<lparr>m_pc = pc, e_seqnum = seq_arg w s\<rparr>"
  have win: "in_window w pc = (m_max_col w = 0 \<or> m_thresh w = 0 \<or>
         (m_max_col w - m_thresh w \<le> column (chunks w pc) \<and>
          column (chunks w pc) \<le> m_max_col w + m_thresh w))"
    by (simp add: in_window_def)
  have g: "grown w pc s = w\<lparr>m_nl_seqnum := max (m_nl_seqnum w) (seq_arg w s),
      m_aligned := m_aligned w @ [?e],
      m_max_col := column (chunks w pc) + len (chunks w pc)\<rparr>"
    by (simp add: grown_def to_aligned_def endcol_def)
  have "if in_window w pc
      then
        if m_max_col w < endcol w pc \<and> m_skipped w \<noteq> []
        then
          (\<exists>m. ReAddSkipped m ind (grown w pc s) = Some w') \<and>
          length (m_skipped w') \<le> length (m_skipped w) \<and>
          (\<exists>cs. applied w' = applied w @ cs \<and>
             ((cs = [] \<and> (\<exists>xs. m_aligned w' = m_aligned w @ ?e # xs)) \<or>
              (\<exists>xs M rest.
                 cs = map (\<lambda>ce. (m_pc ce, M - len (chunks w (m_pc ce))))
                        (m_aligned w @ ?e # xs) @ rest)))
        else
          w' = w\<lparr>m_nl_seqnum := max (m_nl_seqnum w) (seq_arg w s),
                 m_aligned := m_aligned w @ [?e],
                 m_max_col := max (m_max_col w) (endcol w pc)\<rparr>
      else w' = w\<lparr>m_skipped := m_skipped w @ [?e]\<rparr>"
  proof (cases "in_window w pc")
    case False
    with r n show ?thesis by (simp add: Add_step to_skipped_def)
  next
    case True
    show ?thesis
    proof (cases "m_max_col w < endcol w pc \<and> m_skipped w \<noteq> []")
      case False
      show ?thesis
      proof (cases "m_max_col w < endcol w pc")
        case gr: True
        with r n True False have "w' = grown w pc s" by (simp add: Add_step)
        with True False gr show ?thesis by (simp add: grown_def to_aligned_def max_def)
      next
        case ngr: False
        with r n True have "w' = to_aligned w pc s" by (simp add: Add_step)
        with True False ngr show ?thesis by (simp add: to_aligned_def max_def)
      qed
    next
      case replay: True
      with r n True have rr: "ReAddSkipped m ind (grown w pc s) = Some w'"
        by (simp add: Add_step)
      from ReAddSkipped_sizes[OF rr] have sz: "length (m_skipped w') \<le> length (m_skipped w)"
        by (simp add: sizes_ok_def)
      from ReAddSkipped_in_group[OF rr]
      have "\<exists>cs. applied w' = applied w @ cs \<and>
          ((cs = [] \<and> (\<exists>xs. m_aligned w' = (m_aligned w @ [?e]) @ xs)) \<or>
           (\<exists>xs M rest.
              cs = map (\<lambda>ce. (m_pc ce, M - len (chunks w (m_pc ce))))
                     ((m_aligned w @ [?e]) @ xs) @ rest))"
        unfolding in_group_def grown_fields by blast
      then have tr: "\<exists>cs. applied w' = applied w @ cs \<and>
          ((cs = [] \<and> (\<exists>xs. m_aligned w' = m_aligned w @ ?e # xs)) \<or>
           (\<exists>xs M rest.
              cs = map (\<lambda>ce. (m_pc ce, M - len (chunks w (m_pc ce))))
                     (m_aligned w @ ?e # xs) @ rest))"
        by (simp only: append_assoc append_Cons append_Nil)
      from rr have "\<exists>m. ReAddSkipped m ind (grown w pc s) = Some w'" by blast
      with tr sz True replay show ?thesis by simp
    qed
  qed
  then show "if m_max_col w = 0 \<or> m_thresh w = 0 \<or>
          (m_max_col w - m_thresh w \<le> column (chunks w pc) \<and>
           column (chunks w pc) \<le> m_max_col w + m_thresh w)
       then
         if m_max_col w < column (chunks w pc) + len (chunks w pc) \<and> m_skipped w \<noteq> []
         then
           (\<exists>m. ReAddSkipped m ind
                  (w\<lparr>m_nl_seqnum := max (m_nl_seqnum w) (seq_arg w s),
                     m_aligned := m_aligned w @ [?e],
                     m_max_col := column (chunks w pc) + len (chunks w pc)\<rparr>) = Some w') \<and>
           length (m_skipped w') \<le> length (m_skipped w) \<and>
           (\<exists>cs. applied w' = applied w @ cs \<and>
              ((cs = [] \<and> (\<exists>xs. m_aligned w' = m_aligned w @ ?e # xs)) \<or>
               (\<exists>xs M rest.
                  cs = map (\<lambda>ce. (m_pc ce, M - len (chunks w (m_pc ce))))
                         (m_aligned w @ ?e # xs) @ rest)))
         else
           w' = w\<lparr>m_nl_seqnum := max (m_nl_seqnum w) (seq_arg w s),
                  m_aligned := m_aligned w @ [?e],
                  m_max_col := max (m_max_col w) (column (chunks w pc) + len (chunks w pc))\<rparr>
       else w' = w\<lparr>m_skipped := m_skipped w @ [?e]\<rparr>"
    unfolding win g endcol_def .
qed


theorem Add_places_token_witness:
  "Add (Suc 0) set_column pending_one 1 2 =
     Some (pending_one\<lparr>m_skipped := [\<lparr>m_pc = 1, e_seqnum = 2\<rparr>]\<rparr>) \<and>
   Add (Suc 0) set_column pending_one 2 3 =
     Some (pending_one\<lparr>m_nl_seqnum := 3,
             m_aligned := [\<lparr>m_pc = 0, e_seqnum = 1\<rparr>, \<lparr>m_pc = 2, e_seqnum = 3\<rparr>],
             m_max_col := 13\<rparr>) \<and>
   (\<exists>w'. Add 4 set_column replay_state 2 3 = Some w' \<and> applied w' = [] \<and>
      (\<exists>xs. m_aligned w' = \<lparr>m_pc = 0, e_seqnum = 1\<rparr> # \<lparr>m_pc = 2, e_seqnum = 3\<rparr> # xs)) \<and>
   (\<exists>w'. Add 6 set_column expired_state 2 4 = Some w' \<and> m_aligned w' = [] \<and>
      (\<exists>xs M rest. applied w' =
         map (\<lambda>ce. (m_pc ce, M - len (chunks expired_state (m_pc ce))))
           (\<lparr>m_pc = 0, e_seqnum = 3\<rparr> # \<lparr>m_pc = 2, e_seqnum = 4\<rparr> # xs) @ rest)) \<and>
   map_option observe (Add 4 set_column replay_state 2 3) = Some ([0, 2, 1], [], 15, 3, 0, []) \<and>
   map_option observe (Add 6 set_column expired_state 2 4) =
     Some ([], [], 0, 4, 5, [(0, 3), (2, 3)])"
proof -
  have a: "Add (Suc 0) set_column pending_one 1 2 =
     Some (pending_one\<lparr>m_skipped := [\<lparr>m_pc = 1, e_seqnum = 2\<rparr>]\<rparr>)"
  proof -
    have "\<exists>w'. Add (Suc 0) set_column pending_one 1 2 = Some w'"
      by (simp add: Add_step in_window_def pending_one_def doc_of_def)
    then obtain w' where r: "Add (Suc 0) set_column pending_one 1 2 = Some w'" by blast
    with Add_places_token[of set_column pending_one 1 2]
    have "w' = pending_one\<lparr>m_skipped := [\<lparr>m_pc = 1, e_seqnum = 2\<rparr>]\<rparr>"
      by (auto simp add: pending_one_def doc_of_def seq_arg_def)
    with r show ?thesis by simp
  qed
  have b: "Add (Suc 0) set_column pending_one 2 3 =
     Some (pending_one\<lparr>m_nl_seqnum := 3,
             m_aligned := [\<lparr>m_pc = 0, e_seqnum = 1\<rparr>, \<lparr>m_pc = 2, e_seqnum = 3\<rparr>],
             m_max_col := 13\<rparr>)"
  proof -
    have "\<exists>w'. Add (Suc 0) set_column pending_one 2 3 = Some w'"
      by (simp add: Add_step in_window_def endcol_def pending_one_def doc_of_def)
    then obtain w' where r: "Add (Suc 0) set_column pending_one 2 3 = Some w'" by blast
    with Add_places_token[of set_column pending_one 2 3]
    have "w' = pending_one\<lparr>m_nl_seqnum := 3,
             m_aligned := [\<lparr>m_pc = 0, e_seqnum = 1\<rparr>, \<lparr>m_pc = 2, e_seqnum = 3\<rparr>],
             m_max_col := 13\<rparr>"
      by (auto simp add: pending_one_def doc_of_def seq_arg_def)
    with r show ?thesis by simp
  qed
  have e: "map_option observe (Add 4 set_column replay_state 2 3) =
      Some ([0, 2, 1], [], 15, 3, 0, [])"
    by code_simp
  have f: "map_option observe (Add 6 set_column expired_state 2 4) =
      Some ([], [], 0, 4, 5, [(0, 3), (2, 3)])"
    by code_simp
  have c: "\<exists>w'. Add 4 set_column replay_state 2 3 = Some w' \<and> applied w' = [] \<and>
      (\<exists>xs. m_aligned w' = \<lparr>m_pc = 0, e_seqnum = 1\<rparr> # \<lparr>m_pc = 2, e_seqnum = 3\<rparr> # xs)"
  proof -
    from e obtain w' where r: "Add 4 set_column replay_state 2 3 = Some w'"
      and o: "observe w' = ([0, 2, 1], [], 15, 3, 0, [])"
      by blast
    from o have ap: "applied w' = []" by (simp add: observe_def)
    from r Add_places_token[of set_column replay_state 2 3]
    have "\<exists>cs. applied w' = applied replay_state @ cs \<and>
        ((cs = [] \<and>
          (\<exists>xs. m_aligned w' =
             m_aligned replay_state @ \<lparr>m_pc = 2, e_seqnum = seq_arg replay_state 3\<rparr> # xs)) \<or>
         (\<exists>xs M rest.
            cs = map (\<lambda>ce. (m_pc ce, M - len (chunks replay_state (m_pc ce))))
                   (m_aligned replay_state @ \<lparr>m_pc = 2, e_seqnum = seq_arg replay_state 3\<rparr> # xs) @
                 rest))"
      by (auto simp add: replay_state_def doc_of_def)
    with ap have "\<exists>xs. m_aligned w' =
        m_aligned replay_state @ \<lparr>m_pc = 2, e_seqnum = seq_arg replay_state 3\<rparr> # xs"
      by auto
    then have "\<exists>xs. m_aligned w' = \<lparr>m_pc = 0, e_seqnum = 1\<rparr> # \<lparr>m_pc = 2, e_seqnum = 3\<rparr> # xs"
      by (simp add: replay_state_def seq_arg_def)
    with r ap show ?thesis by blast
  qed
  have d: "\<exists>w'. Add 6 set_column expired_state 2 4 = Some w' \<and> m_aligned w' = [] \<and>
      (\<exists>xs M rest. applied w' =
         map (\<lambda>ce. (m_pc ce, M - len (chunks expired_state (m_pc ce))))
           (\<lparr>m_pc = 0, e_seqnum = 3\<rparr> # \<lparr>m_pc = 2, e_seqnum = 4\<rparr> # xs) @ rest)"
  proof -
    from f obtain w' where r: "Add 6 set_column expired_state 2 4 = Some w'"
      and o: "observe w' = ([], [], 0, 4, 5, [(0, 3), (2, 3)])"
      by blast
    from o have al: "m_aligned w' = []" and ap: "applied w' \<noteq> []" by (simp_all add: observe_def)
    from r Add_places_token[of set_column expired_state 2 4]
    have "\<exists>cs. applied w' = applied expired_state @ cs \<and>
        ((cs = [] \<and>
          (\<exists>xs. m_aligned w' =
             m_aligned expired_state @ \<lparr>m_pc = 2, e_seqnum = seq_arg expired_state 4\<rparr> # xs)) \<or>
         (\<exists>xs M rest.
            cs = map (\<lambda>ce. (m_pc ce, M - len (chunks expired_state (m_pc ce))))
                   (m_aligned expired_state @
                    \<lparr>m_pc = 2, e_seqnum = seq_arg expired_state 4\<rparr> # xs) @
                 rest))"
      by (auto simp add: expired_state_def doc_of_def)
    then obtain cs where 1: "applied w' = applied expired_state @ cs"
      and 2: "(cs = [] \<and>
          (\<exists>xs. m_aligned w' =
             m_aligned expired_state @ \<lparr>m_pc = 2, e_seqnum = seq_arg expired_state 4\<rparr> # xs)) \<or>
         (\<exists>xs M rest.
            cs = map (\<lambda>ce. (m_pc ce, M - len (chunks expired_state (m_pc ce))))
                   (m_aligned expired_state @
                    \<lparr>m_pc = 2, e_seqnum = seq_arg expired_state 4\<rparr> # xs) @
                 rest)"
      by blast
    from 2 al have "\<exists>xs M rest.
        cs = map (\<lambda>ce. (m_pc ce, M - len (chunks expired_state (m_pc ce))))
               (m_aligned expired_state @
                \<lparr>m_pc = 2, e_seqnum = seq_arg expired_state 4\<rparr> # xs) @ rest"
      by auto
    moreover have "applied expired_state = []"
      and "m_aligned expired_state = [\<lparr>m_pc = 0, e_seqnum = 3\<rparr>]"
      and "seq_arg expired_state 4 = 4"
      by (simp_all add: expired_state_def seq_arg_def)
    ultimately have "\<exists>xs M rest. applied w' =
         map (\<lambda>ce. (m_pc ce, M - len (chunks expired_state (m_pc ce))))
           (\<lparr>m_pc = 0, e_seqnum = 3\<rparr> # \<lparr>m_pc = 2, e_seqnum = 4\<rparr> # xs) @ rest"
      using 1 by (simp only: append_Nil append_Cons)
    with r al show ?thesis by blast
  qed
  from a b c d e f show ?thesis by blast
qed

text \<open>
  C2, amended. \<open>Flush\<close> returns. The calls of the column applier it makes begin with one
  call per entry of Aligned, in insertion order, with target column \<open>max_col - len\<close>. When no
  entry of Skipped survives the removal of the stale ones (so in particular when Skipped
  is empty), these are all its calls, and afterwards Aligned is empty and \<open>max_col = 0\<close>.
\<close>

theorem Flush_commits_aligned:
  "\<exists>n w' cs. Flush n ind w = Some w' \<and>
     applied w' =
       applied w @ map (\<lambda>ce. (m_pc ce, m_max_col w - len (chunks w (m_pc ce)))) (m_aligned w) @ cs \<and>
     (survivors w = [] \<longrightarrow> cs = [] \<and> m_aligned w' = [] \<and> m_max_col w' = 0)"
proof (cases "survivors w = []")
  case True
  from Flush_no_survivors[OF this, of ind] show ?thesis
    by (intro exI[of _ "Suc (Suc 0)"]) (auto simp add: flush_calls_def)
next
  case False
  from Flush_returns obtain n w' where f: "Flush n ind w = Some w'" by blast
  from Flush_applied[OF f] False f show ?thesis by (auto simp add: flush_calls_def)
qed

theorem Flush_commits_aligned_witness:
  "survivors spec_example = [] \<and>
   (\<exists>n w'. Flush n set_column spec_example = Some w' \<and>
      applied w' = [(0, 14), (2, 14), (1, 14)] \<and> m_aligned w' = [] \<and> m_max_col w' = 0)"
  using Flush_commits_aligned[of set_column spec_example]
  by (simp add: spec_example_def survivors_def Zap_Collapse_def doc_of_def)

text \<open>
  C2 as stated fails when a skipped entry survives: \<open>Flush\<close> replays it, so that Aligned is
  not empty and \<open>max_col\<close> is not \<open>0\<close> afterwards.
\<close>

theorem Flush_commits_aligned_counterexample:
  "map_option observe
     (session 6 set_column (fresh (doc_of [(1, 1), (10, 1)]))
        [Call_Start 0 1, Call_Add 0 1, Call_Add 1 1]) =
     Some ([0], [1], 2, 1, 0, []) \<and>
   map_option observe
     (session 6 set_column (fresh (doc_of [(1, 1), (10, 1)]))
        [Call_Start 0 1, Call_Add 0 1, Call_Add 1 1, Call_Flush]) =
     Some ([1], [], 11, 1, 0, [(0, 1)])"
  by code_simp

section \<open>Tokens are not duplicated\<close>

lemma tokens_of_simps [simp]:
  "tokens_of (to_skipped w pc s) = tokens_of w + {#pc#}"
  "tokens_of (to_aligned w pc s) = tokens_of w + {#pc#}"
  "tokens_of (grown w pc s) = tokens_of w + {#pc#}"
  "tokens_of (w\<lparr>m_seqnum := k\<rparr>) = tokens_of w"
  "tokens_of ((committed ind w)\<lparr>m_nl_seqnum := k\<rparr>) = tokens_of w"
  "tokens_of (cleared w) = mset (map fst (applied w))"
  by (simp_all add: tokens_of_def flush_calls_def comp_def)

lemma tokens_of_snapshot:
  "tokens_of (snapshot w) + mset (map m_pc (m_skipped w)) = tokens_of w"
  by (simp add: tokens_of_def)

lemma tokens_of_survivors:
  "tokens_of ((committed ind w)\<lparr>m_skipped := survivors w\<rparr>) \<subseteq># tokens_of w"
proof -
  have "mset (map m_pc (survivors w)) \<subseteq># mset (map m_pc (m_skipped w))"
    unfolding survivors_def Zap_Collapse_def
    by (simp add: image_mset_subseteq_mono)
  then show ?thesis
    by (simp add: tokens_of_def flush_calls_def comp_def)
qed

lemma tokens_all:
  "(\<forall>w pc s w'. Add n ind w pc s = Some w' \<longrightarrow> tokens_of w' \<subseteq># tokens_of w + {#pc#}) \<and>
   (\<forall>w w'. ReAddSkipped n ind w = Some w' \<longrightarrow> tokens_of w' \<subseteq># tokens_of w) \<and>
   (\<forall>w idx w'. ReAdd_loop n ind w idx = Some w' \<longrightarrow>
      (length (m_skipped w) \<le> idx \<longrightarrow>
       tokens_of w' \<subseteq># tokens_of w + mset (map m_pc (drop idx (m_scratch w))))) \<and>
   (\<forall>w cnt w'. NewLines n ind w cnt = Some w' \<longrightarrow> tokens_of w' \<subseteq># tokens_of w) \<and>
   (\<forall>w w'. Flush n ind w = Some w' \<longrightarrow> tokens_of w' \<subseteq># tokens_of w)"
proof (rule calls_induct, goal_cases)
  case (1 w pc s)
  show ?case by simp
next
  case (2 w pc s)
  show ?case by simp
next
  case (3 w pc s)
  show ?case by simp
next
  case (4 w pc s w' n)
  then show ?case by simp
next
  case (5 w)
  show ?case by simp
next
  case (6 w w3 w' n)
  from 6(2) have "tokens_of w3 \<subseteq># tokens_of (snapshot w) + mset (map m_pc (m_skipped w))"
    by simp
  then have "tokens_of w3 \<subseteq># tokens_of w" by (simp only: tokens_of_snapshot)
  with 6(3) show ?case by (rule subset_mset.order_trans)
next
  case (7 w idx)
  show ?case by simp
next
  case (8 w idx w1 w' n)
  let ?pc = "m_pc (m_scratch w ! idx)"
  show ?case
  proof
    assume inv: "length (m_skipped w) \<le> idx"
    from Add_sizes[OF 8(4)]
    have a2: "length (m_skipped w1) \<le> length (m_skipped w) + 1"
      and a3: "m_scratch w1 = m_scratch w \<or> length (m_scratch w1) \<le> length (m_skipped w)"
      by (simp_all add: sizes_ok_def)
    from a2 inv have "length (m_skipped w1) \<le> Suc idx" by simp
    with 8(3) have b: "tokens_of w' \<subseteq># tokens_of w1 + mset (map m_pc (drop (Suc idx) (m_scratch w1)))"
      by simp
    have d: "mset (map m_pc (drop idx (m_scratch w))) =
             {#?pc#} + mset (map m_pc (drop (Suc idx) (m_scratch w)))"
      using 8(1) by (simp add: Cons_nth_drop_Suc[symmetric])
    have "mset (map m_pc (drop (Suc idx) (m_scratch w1))) \<subseteq>#
          mset (map m_pc (drop (Suc idx) (m_scratch w)))"
      using a3 inv by auto
    with 8(2) have "tokens_of w1 + mset (map m_pc (drop (Suc idx) (m_scratch w1))) \<subseteq>#
        (tokens_of w + {#?pc#}) + mset (map m_pc (drop (Suc idx) (m_scratch w)))"
      by (rule subset_mset.add_mono)
    with b have "tokens_of w' \<subseteq>#
        (tokens_of w + {#?pc#}) + mset (map m_pc (drop (Suc idx) (m_scratch w)))"
      by (rule subset_mset.order_trans)
    then show "tokens_of w' \<subseteq># tokens_of w + mset (map m_pc (drop idx (m_scratch w)))"
      unfolding d by (simp add: ac_simps)
  qed
next
  case (9 w cnt)
  show ?case by simp
next
  case (10 w cnt)
  show ?case by simp
next
  case (11 w cnt w' n)
  then show ?case by simp
next
  case (12 w)
  show ?case by simp
next
  case (13 w w' n)
  from 13(2) tokens_of_survivors show ?case by (rule subset_mset.order_trans)
qed

lemma Add_tokens: "Add n ind w pc s = Some w' \<Longrightarrow> tokens_of w' \<subseteq># tokens_of w + {#pc#}"
  using tokens_all[of n ind] by blast

lemma ReAddSkipped_tokens: "ReAddSkipped n ind w = Some w' \<Longrightarrow> tokens_of w' \<subseteq># tokens_of w"
  using tokens_all[of n ind] by blast

lemma NewLines_tokens: "NewLines n ind w cnt = Some w' \<Longrightarrow> tokens_of w' \<subseteq># tokens_of w"
  using tokens_all[of n ind] by blast

lemma Flush_tokens: "Flush n ind w = Some w' \<Longrightarrow> tokens_of w' \<subseteq># tokens_of w"
  using tokens_all[of n ind] by blast

section \<open>Sessions\<close>

lemma End_before_clear: "End n ind w = map_option cleared (before_clear n ind w)"
  by (simp add: End_step before_clear_def)

lemma before_clear_fuel:
  "before_clear n ind w = Some w' \<Longrightarrow> n \<le> m \<Longrightarrow> before_clear m ind w = Some w'"
  using Flush_fuel[of n ind w w' m] by (simp add: before_clear_def split: if_splits)

lemma before_clear_returns: "\<exists>n w'. before_clear n ind w = Some w'"
  using Flush_returns[of ind w] by (auto simp add: before_clear_def)

lemma before_clear_tokens: "before_clear n ind w = Some w' \<Longrightarrow> tokens_of w' \<subseteq># tokens_of w"
  using Flush_tokens[of n ind w w'] by (auto simp add: before_clear_def split: if_splits)

lemma End_fuel: "End n ind w = Some w' \<Longrightarrow> n \<le> m \<Longrightarrow> End m ind w = Some w'"
  unfolding End_before_clear using before_clear_fuel[of n ind w _ m] by auto

lemma do_call_fuel:
  assumes "do_call n ind w c = Some w'" and "n \<le> m"
  shows "do_call m ind w c = Some w'"
proof (cases c)
  case (Call_Start span thresh)
  with assms show ?thesis by simp
next
  case (Call_Add pc s)
  with assms Add_fuel[of n ind w pc s w' m] show ?thesis by simp
next
  case (Call_NewLines cnt)
  with assms NewLines_fuel[of n ind w cnt w' m] show ?thesis by simp
next
  case Call_Flush
  with assms Flush_fuel[of n ind w w' m] show ?thesis by simp
next
  case Call_End
  with assms End_fuel[of n ind w w' m] show ?thesis by simp
qed

lemma do_call_returns: "\<exists>n w'. do_call n ind w c = Some w'"
proof (cases c)
  case (Call_Start span thresh)
  then show ?thesis by simp
next
  case (Call_Add pc s)
  then show ?thesis using Add_returns by simp
next
  case (Call_NewLines cnt)
  then show ?thesis using NewLines_returns by simp
next
  case Call_Flush
  then show ?thesis using Flush_returns by simp
next
  case Call_End
  then show ?thesis using End_returns by simp
qed

lemma session_fuel: "session n ind w cs = Some w' \<Longrightarrow> n \<le> m \<Longrightarrow> session m ind w cs = Some w'"
proof (induction cs arbitrary: w)
  case Nil
  then show ?case by simp
next
  case (Cons c cs)
  from Cons.prems(1) obtain w1 where 1: "do_call n ind w c = Some w1"
    and 2: "session n ind w1 cs = Some w'"
    by (auto split: option.splits)
  from do_call_fuel[OF 1 Cons.prems(2)] Cons.IH[OF 2 Cons.prems(2)] show ?case by simp
qed

lemma session_returns: "\<exists>n w'. session n ind w cs = Some w'"
proof (induction cs arbitrary: w)
  case Nil
  show ?case by simp
next
  case (Cons c cs)
  from do_call_returns obtain n1 w1 where 1: "do_call n1 ind w c = Some w1" by blast
  from Cons.IH obtain n2 w' where 2: "session n2 ind w1 cs = Some w'" by blast
  from do_call_fuel[OF 1, of "max n1 n2"] session_fuel[OF 2, of "max n1 n2"]
  have "session (max n1 n2) ind w (c # cs) = Some w'" by simp
  then show ?case by blast
qed

lemma session_tokens:
  "session n ind w cs = Some w' \<Longrightarrow> list_all inner cs \<Longrightarrow>
   tokens_of w' \<subseteq># tokens_of w + mset (added cs)"
proof (induction cs arbitrary: w)
  case Nil
  then show ?case by simp
next
  case (Cons c cs)
  from Cons.prems(1) obtain w1 where 1: "do_call n ind w c = Some w1"
    and 2: "session n ind w1 cs = Some w'"
    by (auto split: option.splits)
  from Cons.prems(2) have "list_all inner cs" by simp
  from Cons.IH[OF 2 this] have ih: "tokens_of w' \<subseteq># tokens_of w1 + mset (added cs)" .
  have "tokens_of w1 + mset (added cs) \<subseteq># tokens_of w + mset (added (c # cs))"
  proof (cases c)
    case (Call_Add pc s)
    with 1 have "Add n ind w pc s = Some w1" by simp
    from Add_tokens[OF this] have "tokens_of w1 \<subseteq># tokens_of w + {#pc#}" .
    then show ?thesis unfolding Call_Add by (simp add: ac_simps)
  next
    case (Call_NewLines cnt)
    with 1 NewLines_tokens[of n ind w cnt w1] show ?thesis by simp
  next
    case Call_Flush
    with 1 Flush_tokens[of n ind w w1] show ?thesis by simp
  next
    case (Call_Start span thresh)
    with Cons.prems(2) show ?thesis by simp
  next
    case Call_End
    with Cons.prems(2) show ?thesis by simp
  qed
  with ih show ?case by (rule subset_mset.order_trans)
qed

lemma replay_seeds_group:
  assumes r: "ReAddSkipped n ind w = Some w'"
    and sk: "m_skipped w \<noteq> []"
    and mc: "m_max_col w = 0"
    and ap: "applied w' = applied w"
  shows "m_aligned w' \<noteq> []"
proof -
  from r obtain m where n: "n = Suc m" by (cases n) simp_all
  with r sk obtain w3 where l: "ReAdd_loop m ind (snapshot w) 0 = Some w3"
    and nl: "NewLines m ind w3 0 = Some w'"
    by (auto simp add: ReAddSkipped_step split: option.splits)
  from l obtain k where m: "m = Suc k" by (cases m) simp_all
  let ?pc = "m_pc (m_skipped w ! 0)" and ?s = "e_seqnum (m_skipped w ! 0)"
  from l m sk obtain wa where a: "Add k ind (snapshot w) ?pc ?s = Some wa"
    and l1: "ReAdd_loop k ind wa (Suc 0) = Some w3"
    by (auto simp add: ReAdd_loop_step split: option.splits)
  from a obtain j where k: "k = Suc j" by (cases k) simp_all
  have win: "in_window (snapshot w) ?pc" using mc by (simp add: in_window_def)
  with a k have "wa = to_aligned (snapshot w) ?pc ?s \<or> wa = grown (snapshot w) ?pc ?s"
    by (auto simp add: Add_step split: if_splits)
  then have wa: "m_aligned wa \<noteq> []" "applied wa = applied w" by auto
  have "follows wa w3" using follows_all[of k ind] l1 by blast
  moreover have "follows w3 w'" using follows_all[of m ind] nl by blast
  ultimately have "follows wa w'" by (rule follows_trans)
  then obtain cs where cs: "applied w' = applied wa @ cs"
    and d: "(cs = [] \<and> (\<exists>xs. m_aligned w' = m_aligned wa @ xs)) \<or>
            m_pc ` set (m_aligned wa) \<subseteq> fst ` set cs"
    unfolding follows_def by blast
  from cs ap wa(2) have "cs = []" by simp
  with d wa(1) show ?thesis by auto
qed

lemma Flush_unique: "Flush n ind w = Some a \<Longrightarrow> Flush m ind w = Some b \<Longrightarrow> a = b"
  using Flush_fuel[of n ind w a "max n m"] Flush_fuel[of m ind w b "max n m"] by simp

text \<open>
  C10. When \<open>End\<close> is called with Aligned non-empty and a skipped entry that survives, its
  \<open>Flush\<close> first passes the entries of Aligned to the column applier and then replays the
  survivors. If \<open>Flush\<close> makes no further call of the applier (the replay triggers no second
  flush), it returns with a new, non-empty Aligned made of replayed tokens; \<open>End\<close> then
  clears both collections, and its only calls of the applier were those for the old
  Aligned: the re-admitted tokens are dropped from Aligned without a call.
\<close>

theorem End_discards_readmitted:
  assumes "m_aligned w \<noteq> []" and "survivors w \<noteq> []"
  shows "\<exists>n w1 cs. Flush n ind w = Some w1 \<and> End n ind w = Some (cleared w1) \<and>
           applied (cleared w1) = applied w @ flush_calls w @ cs \<and>
           (cs = [] \<longrightarrow>
              m_aligned w1 \<noteq> [] \<and>
              mset (map m_pc (m_aligned w1)) \<subseteq># mset (map m_pc (survivors w)))"
proof -
  let ?C = "(committed ind w)\<lparr>m_skipped := survivors w\<rparr>"
  from assms(2) have sk: "m_skipped w \<noteq> []"
    by (auto simp add: survivors_def Zap_Collapse_def)
  from Flush_returns obtain n w1 where f: "Flush n ind w = Some w1" by blast
  then obtain m where n: "n = Suc m" by (cases n) simp_all
  from f n sk have r: "ReAddSkipped m ind ?C = Some w1" by (simp add: Flush_step)
  from Flush_applied[OF f] obtain cs where cs: "applied w1 = applied w @ flush_calls w @ cs"
    by blast
  have "m_aligned w1 \<noteq> [] \<and> mset (map m_pc (m_aligned w1)) \<subseteq># mset (map m_pc (survivors w))"
    if "cs = []"
  proof
    from that cs have ap: "applied w1 = applied ?C" by simp
    from replay_seeds_group[OF r _ _ ap] assms(2) show "m_aligned w1 \<noteq> []" by simp
    from ReAddSkipped_tokens[OF r] have "tokens_of w1 \<subseteq># tokens_of ?C" .
    then have "mset (map m_pc (m_aligned w1)) + mset (map m_pc (m_skipped w1)) \<subseteq>#
        mset (map m_pc (survivors w))"
      unfolding tokens_of_def ap by simp
    then show "mset (map m_pc (m_aligned w1)) \<subseteq># mset (map m_pc (survivors w))"
      by (rule subset_mset.order_trans[OF mset_subset_eq_add_left])
  qed
  moreover from f assms(1) have "End n ind w = Some (cleared w1)" by (simp add: End_step)
  ultimately show ?thesis using f cs by auto
qed

theorem End_discards_readmitted_witness:
  "m_aligned two_groups \<noteq> [] \<and> survivors two_groups \<noteq> [] \<and>
   (\<exists>n w1. Flush n set_column two_groups = Some w1 \<and>
      End n set_column two_groups = Some (cleared w1) \<and>
      applied (cleared w1) = [(0, 1)] \<and> m_aligned w1 \<noteq> [] \<and>
      mset (map m_pc (m_aligned w1)) \<subseteq># {#1#}) \<and>
   map_option observe (Flush 4 set_column two_groups) = Some ([1], [], 11, 1, 0, [(0, 1)]) \<and>
   map_option observe (End 4 set_column two_groups) = Some ([], [], 11, 1, 0, [(0, 1)])"
proof -
  have e: "map_option observe (Flush 4 set_column two_groups) = Some ([1], [], 11, 1, 0, [(0, 1)])"
    by code_simp
  have e': "map_option observe (End 4 set_column two_groups) = Some ([], [], 11, 1, 0, [(0, 1)])"
    by code_simp
  have h: "m_aligned two_groups \<noteq> []" "survivors two_groups \<noteq> []"
    by (simp_all add: two_groups_def survivors_def Zap_Collapse_def last_seqnum_def)
  have fc: "flush_calls two_groups = [(0, 1)]"
    by (simp add: two_groups_def flush_calls_def doc_of_def)
  have sv: "map m_pc (survivors two_groups) = [1]"
    by (simp add: two_groups_def survivors_def Zap_Collapse_def last_seqnum_def)
  from End_discards_readmitted[OF h, of set_column] obtain n w1 cs
    where 1: "Flush n set_column two_groups = Some w1"
      and 2: "End n set_column two_groups = Some (cleared w1)"
      and 3: "applied (cleared w1) = applied two_groups @ flush_calls two_groups @ cs"
      and 4: "cs = [] \<longrightarrow> m_aligned w1 \<noteq> [] \<and>
            mset (map m_pc (m_aligned w1)) \<subseteq># mset (map m_pc (survivors two_groups))"
    by blast
  from e obtain w4 where 5: "Flush 4 set_column two_groups = Some w4"
    and 6: "observe w4 = ([1], [], 11, 1, 0, [(0, 1)])"
    by blast
  from Flush_unique[OF 1 5] 6 have "applied w1 = [(0, 1)]" by (simp add: observe_def)
  with 3 fc have cs: "cs = []" by (simp add: two_groups_def)
  with 4 have a: "m_aligned w1 \<noteq> []"
    and b: "mset (map m_pc (m_aligned w1)) \<subseteq># mset (map m_pc (survivors two_groups))"
    by blast+
  from b have b': "mset (map m_pc (m_aligned w1)) \<subseteq># {#1#}" unfolding sv by simp
  from \<open>applied w1 = [(0, 1)]\<close> have "applied (cleared w1) = [(0, 1)]" by simp
  with a b' have "applied (cleared w1) = [(0, 1)] \<and> m_aligned w1 \<noteq> [] \<and>
      mset (map m_pc (m_aligned w1)) \<subseteq># {#1#}"
    by blast
  with 1 2 h e e' show ?thesis by blast
qed

lemma tokens_of_Start:
  "tokens_of (Start w span thresh) = mset (map fst (applied w))"
  by (simp add: tokens_of_def Start_def Reset_def)

text \<open>
  C9, amended. In a session \<open>Start\<close>, then calls of \<open>Add\<close>, \<open>NewLines\<close> and \<open>Flush\<close> in which
  no token is passed to \<open>Add\<close> twice, then \<open>End\<close>: every call returns, and a token that is
  in Skipped at the moment \<open>End\<close> clears the collections has not been passed to the column
  applier at any point of the session.
\<close>

theorem skipped_at_End_never_applied:
  assumes "list_all inner cs" and "distinct (added cs)" and "applied w0 = []"
  shows "\<exists>n w w1. session n ind (Start w0 span thresh) cs = Some w \<and>
           before_clear n ind w = Some w1 \<and> End n ind w = Some (cleared w1) \<and>
           (\<forall>e \<in> set (m_skipped w1). m_pc e \<notin> fst ` set (applied (cleared w1)))"
proof -
  from session_returns obtain n1 w where 1: "session n1 ind (Start w0 span thresh) cs = Some w"
    by blast
  from before_clear_returns obtain n2 w1 where 2: "before_clear n2 ind w = Some w1" by blast
  let ?n = "max n1 n2"
  from session_fuel[OF 1, of ?n] have s: "session ?n ind (Start w0 span thresh) cs = Some w"
    by simp
  from before_clear_fuel[OF 2, of ?n] have b: "before_clear ?n ind w = Some w1" by simp
  then have e: "End ?n ind w = Some (cleared w1)" by (simp add: End_before_clear)
  from session_tokens[OF 1 assms(1)] assms(3) have "tokens_of w \<subseteq># mset (added cs)"
    by (simp add: tokens_of_Start)
  with before_clear_tokens[OF 2] have sub: "tokens_of w1 \<subseteq># mset (added cs)"
    by (rule subset_mset.order_trans)
  have "m_pc e \<notin> fst ` set (applied w1)" if "e \<in> set (m_skipped w1)" for e
  proof
    assume "m_pc e \<in> fst ` set (applied w1)"
    then have "m_pc e \<in># mset (map fst (applied w1))" by simp
    then have c1: "1 \<le> count (mset (map fst (applied w1))) (m_pc e)"
      unfolding count_greater_eq_one_iff .
    from that have "m_pc e \<in># mset (map m_pc (m_skipped w1))" by simp
    then have c2: "1 \<le> count (mset (map m_pc (m_skipped w1))) (m_pc e)"
      unfolding count_greater_eq_one_iff .
    have "count (tokens_of w1) (m_pc e) =
        count (mset (map m_pc (m_aligned w1))) (m_pc e) +
        count (mset (map m_pc (m_skipped w1))) (m_pc e) +
        count (mset (map fst (applied w1))) (m_pc e)"
      by (simp only: tokens_of_def count_union)
    with c1 c2 have "2 \<le> count (tokens_of w1) (m_pc e)" by linarith
    also from sub have "\<dots> \<le> count (mset (added cs)) (m_pc e)"
      by (rule mset_subset_eq_count)
    also from assms(2) have "\<dots> \<le> 1" by (simp add: distinct_count_atmost_1)
    finally show False by simp
  qed
  with s b e show ?thesis by (intro exI[of _ ?n] exI[of _ w] exI[of _ w1]) simp
qed

theorem skipped_at_End_never_applied_witness:
  "list_all inner [Call_Add 0 1, Call_Add 1 2, Call_Add 2 2] \<and>
   distinct (added [Call_Add 0 1, Call_Add 1 2, Call_Add 2 2]) \<and>
   applied (fresh far_tokens) = [] \<and>
   (\<exists>n w w1. session n set_column (Start (fresh far_tokens) 5 1)
                [Call_Add 0 1, Call_Add 1 2, Call_Add 2 2] = Some w \<and>
      before_clear n set_column w = Some w1 \<and> End n set_column w = Some (cleared w1) \<and>
      (\<forall>e \<in> set (m_skipped w1). m_pc e \<notin> fst ` set (applied (cleared w1)))) \<and>
   map_option observe
     (session 6 set_column (fresh far_tokens)
        [Call_Start 5 1, Call_Add 0 1, Call_Add 1 2, Call_Add 2 2]) =
     Some ([0], [1, 2], 2, 1, 0, []) \<and>
   map_option observe
     (before_clear 6 set_column
        \<lparr>m_aligned = [\<lparr>m_pc = 0, e_seqnum = 1\<rparr>],
         m_skipped = [\<lparr>m_pc = 1, e_seqnum = 2\<rparr>, \<lparr>m_pc = 2, e_seqnum = 2\<rparr>], m_scratch = [],
         m_max_col = 2, m_span = 5, m_thresh = 1, m_nl_seqnum = 1, m_seqnum = 0,
         chunks = far_tokens, applied = []\<rparr>) =
     Some ([1], [2], 11, 2, 0, [(0, 1)])"
proof -
  have h: "list_all inner [Call_Add 0 1, Call_Add 1 2, Call_Add 2 2]"
    "distinct (added [Call_Add 0 1, Call_Add 1 2, Call_Add 2 2])"
    "applied (fresh far_tokens) = []"
    by (simp_all add: fresh_def)
  have e: "map_option observe
     (session 6 set_column (fresh far_tokens)
        [Call_Start 5 1, Call_Add 0 1, Call_Add 1 2, Call_Add 2 2]) =
     Some ([0], [1, 2], 2, 1, 0, [])"
    by code_simp
  have f: "map_option observe
     (before_clear 6 set_column
        \<lparr>m_aligned = [\<lparr>m_pc = 0, e_seqnum = 1\<rparr>],
         m_skipped = [\<lparr>m_pc = 1, e_seqnum = 2\<rparr>, \<lparr>m_pc = 2, e_seqnum = 2\<rparr>], m_scratch = [],
         m_max_col = 2, m_span = 5, m_thresh = 1, m_nl_seqnum = 1, m_seqnum = 0,
         chunks = far_tokens, applied = []\<rparr>) =
     Some ([1], [2], 11, 2, 0, [(0, 1)])"
    by code_simp
  from skipped_at_End_never_applied[OF h, of set_column 5 1] h e f show ?thesis by blast
qed

text \<open>
  C9 as stated fails in its second half: a token is also discarded, unaligned, by \<open>Flush\<close>.
  Token 1 is rejected with sequence number 1; the group is flushed by \<open>NewLines\<close> when its
  last entry has sequence number 2; \<open>Flush\<close> removes token 1 as stale. After that call, and
  before any \<open>End\<close>, token 1 is in neither collection and was never passed to the applier.
  The first half needs a caller that passes no token twice: in the second session token 0
  is added, flushed, and added again; at the moment \<open>End\<close> clears the collections it is in
  Skipped, and it has been passed to the applier.
\<close>

theorem skipped_at_End_never_applied_counterexample:
  "map_option observe
     (session 6 set_column (fresh (doc_of [(1, 1), (10, 1), (2, 1)]))
        [Call_Start 0 1, Call_Add 0 1, Call_Add 1 1, Call_Add 2 2]) =
     Some ([0, 2], [1], 3, 2, 0, []) \<and>
   map_option observe
     (session 6 set_column (fresh (doc_of [(1, 1), (10, 1), (2, 1)]))
        [Call_Start 0 1, Call_Add 0 1, Call_Add 1 1, Call_Add 2 2, Call_NewLines 5]) =
     Some ([], [], 0, 2, 5, [(0, 2), (2, 2)]) \<and>
   map_option observe
     (Option.bind
        (session 6 set_column (fresh far_tokens)
           [Call_Start 0 1, Call_Add 0 1, Call_NewLines 5, Call_Add 1 0, Call_Add 2 0,
            Call_Add 0 0])
        (before_clear 6 set_column)) =
     Some ([2], [0], 31, 5, 5, [(0, 1), (1, 10)])"
  by code_simp

section \<open>The running sequence number\<close>

lemma seqnum_all:
  "(\<forall>w pc s w'. Add n ind w pc s = Some w' \<longrightarrow> m_seqnum w' = m_seqnum w) \<and>
   (\<forall>w w'. ReAddSkipped n ind w = Some w' \<longrightarrow> m_seqnum w' = m_seqnum w) \<and>
   (\<forall>w idx w'. ReAdd_loop n ind w idx = Some w' \<longrightarrow> m_seqnum w' = m_seqnum w) \<and>
   (\<forall>w cnt w'. NewLines n ind w cnt = Some w' \<longrightarrow>
      m_seqnum w' = (if m_aligned w = [] then m_seqnum w else m_seqnum w + cnt)) \<and>
   (\<forall>w w'. Flush n ind w = Some w' \<longrightarrow> m_seqnum w' = m_seqnum w)"
proof (rule calls_induct, goal_cases)
  case (6 w w3 w' n)
  then show ?case by (simp split: if_splits)
qed simp_all

lemma do_call_seqnum:
  assumes "do_call n ind w c = Some w'"
  shows "m_seqnum w' = counted w (m_seqnum w) c"
proof (cases c)
  case (Call_Start span thresh)
  with assms show ?thesis by (auto simp add: Start_def)
next
  case (Call_Add pc s)
  with assms seqnum_all[of n ind] show ?thesis by auto
next
  case (Call_NewLines cnt)
  with assms seqnum_all[of n ind] show ?thesis by auto
next
  case Call_Flush
  with assms seqnum_all[of n ind] show ?thesis by auto
next
  case Call_End
  with assms seqnum_all[of n ind] show ?thesis
    by (auto simp add: End_step split: if_splits)
qed

lemma session_seqnum:
  "session n ind w cs = Some w' \<Longrightarrow> m_seqnum w' = tally n ind w (m_seqnum w) cs"
proof (induction cs arbitrary: w)
  case Nil
  then show ?case by simp
next
  case (Cons c cs)
  from Cons.prems obtain w1 where 1: "do_call n ind w c = Some w1"
    and 2: "session n ind w1 cs = Some w'"
    by (auto split: option.splits)
  from Cons.IH[OF 2] do_call_seqnum[OF 1] 1 show ?case by simp
qed

lemma session_seqnums_sorted:
  "session n ind w cs = Some w' \<Longrightarrow> list_all inner cs \<Longrightarrow> list_all no_negative_count cs \<Longrightarrow>
   sorted (seqnums n ind w cs)"
proof (induction cs arbitrary: w)
  case Nil
  then show ?case by simp
next
  case (Cons c cs)
  from Cons.prems(1) obtain w1 where 1: "do_call n ind w c = Some w1"
    and 2: "session n ind w1 cs = Some w'"
    by (auto split: option.splits)
  from Cons.prems have "sorted (seqnums n ind w1 cs)" using Cons.IH[OF 2] by simp
  moreover have "m_seqnum w \<le> m_seqnum w1"
    using do_call_seqnum[OF 1] Cons.prems(2,3) by (cases c) (auto split: if_splits)
  moreover have "hd (seqnums n ind w1 cs) = m_seqnum w1" by (cases cs) simp_all
  moreover have "seqnums n ind w1 cs \<noteq> []" by (cases cs) simp_all
  ultimately show ?case using 1 by (cases "seqnums n ind w1 cs") auto
qed

text \<open>
  C6, amended. In a session (\<open>Start\<close>, then calls of \<open>Add\<close>, \<open>NewLines\<close> and \<open>Flush\<close>) every
  call returns, and the running \<open>seqnum\<close> equals the sum of the counts of those \<open>NewLines\<close>
  calls that were made while Aligned was not empty (\<open>tally\<close>); when no count is negative, the
  values of \<open>seqnum\<close> before and after every call form a non-decreasing sequence.
\<close>

theorem seqnum_counts_newlines_with_pending_group:
  assumes "list_all inner cs"
  shows "\<exists>n w'. session n ind (Start w0 span thresh) cs = Some w' \<and>
           m_seqnum w' = tally n ind (Start w0 span thresh) 0 cs \<and>
           (list_all no_negative_count cs \<longrightarrow>
              sorted (seqnums n ind (Start w0 span thresh) cs))"
proof -
  from session_returns obtain n w' where s: "session n ind (Start w0 span thresh) cs = Some w'"
    by blast
  have "m_seqnum (Start w0 span thresh) = 0" by (simp add: Start_def)
  with session_seqnum[OF s] have "m_seqnum w' = tally n ind (Start w0 span thresh) 0 cs"
    by simp
  with s session_seqnums_sorted[OF s assms] show ?thesis by blast
qed

theorem seqnum_counts_newlines_with_pending_group_witness:
  "list_all inner [Call_NewLines 4, Call_Add 0 0, Call_NewLines 2, Call_NewLines 1] \<and>
   list_all no_negative_count [Call_NewLines 4, Call_Add 0 0, Call_NewLines 2, Call_NewLines 1] \<and>
   (\<exists>n w'. session n set_column (Start (fresh far_tokens) 5 1)
              [Call_NewLines 4, Call_Add 0 0, Call_NewLines 2, Call_NewLines 1] = Some w' \<and>
      m_seqnum w' = tally n set_column (Start (fresh far_tokens) 5 1) 0
              [Call_NewLines 4, Call_Add 0 0, Call_NewLines 2, Call_NewLines 1] \<and>
      sorted (seqnums n set_column (Start (fresh far_tokens) 5 1)
              [Call_NewLines 4, Call_Add 0 0, Call_NewLines 2, Call_NewLines 1])) \<and>
   tally 4 set_column (Start (fresh far_tokens) 5 1) 0
     [Call_NewLines 4, Call_Add 0 0, Call_NewLines 2, Call_NewLines 1] = 3 \<and>
   seqnums 4 set_column (Start (fresh far_tokens) 5 1)
     [Call_NewLines 4, Call_Add 0 0, Call_NewLines 2, Call_NewLines 1] = [0, 0, 0, 2, 3]"
proof -
  have h: "list_all inner [Call_NewLines 4, Call_Add 0 0, Call_NewLines 2, Call_NewLines 1]"
    "list_all no_negative_count [Call_NewLines 4, Call_Add 0 0, Call_NewLines 2, Call_NewLines 1]"
    by simp_all
  have e: "tally 4 set_column (Start (fresh far_tokens) 5 1) 0
     [Call_NewLines 4, Call_Add 0 0, Call_NewLines 2, Call_NewLines 1] = 3"
    by code_simp
  have f: "seqnums 4 set_column (Start (fresh far_tokens) 5 1)
     [Call_NewLines 4, Call_Add 0 0, Call_NewLines 2, Call_NewLines 1] = [0, 0, 0, 2, 3]"
    by code_simp
  from seqnum_counts_newlines_with_pending_group[OF h(1), of set_column "fresh far_tokens" 5 1]
    h e f
  show ?thesis by blast
qed

text \<open>
  C6 as stated fails: a \<open>NewLines\<close> call made while Aligned is empty does not count. After
  \<open>Start\<close> and \<open>NewLines(5)\<close> the counts passed to \<open>NewLines\<close> sum to 5 and \<open>seqnum\<close> is 0.
  Nor is \<open>seqnum\<close> non-decreasing when a count is negative: the second list shows its values
  before \<open>Start\<close> and after each of \<open>Start\<close>, \<open>Add\<close>, \<open>NewLines(2)\<close> and \<open>NewLines(-1)\<close>.
\<close>

theorem seqnum_counts_newlines_with_pending_group_counterexample:
  "map_option m_seqnum
     (session 2 set_column (fresh far_tokens) [Call_Start 3 2, Call_NewLines 5]) = Some 0 \<and>
   newline_total [Call_Start 3 2, Call_NewLines 5] = 5 \<and>
   seqnums 4 set_column (fresh far_tokens)
     [Call_Start 3 2, Call_Add 0 0, Call_NewLines 2, Call_NewLines (- 1)] = [0, 0, 0, 2, 1]"
  by code_simp

section \<open>The sequence number of the last accepted entry\<close>

lemma seq_arg_on_time: "s = 0 \<or> s \<le> m_seqnum w \<Longrightarrow> seq_arg w s \<le> m_seqnum w"
  by (auto simp add: seq_arg_def)

lemma time_all:
  "(\<forall>w pc s w'. Add n ind w pc s = Some w' \<longrightarrow>
      (nl_ok w \<and> (s = 0 \<or> s \<le> m_seqnum w) \<longrightarrow> keeps_time w w')) \<and>
   (\<forall>w w'. ReAddSkipped n ind w = Some w' \<longrightarrow> (nl_ok w \<longrightarrow> keeps_time w w')) \<and>
   (\<forall>w idx w'. ReAdd_loop n ind w idx = Some w' \<longrightarrow>
      (nl_ok w \<and> list_all (stored_ok w) (m_scratch w) \<longrightarrow>
       nl_ok w' \<and> list_all (stored_ok w') (m_scratch w'))) \<and>
   (\<forall>w cnt w'. NewLines n ind w cnt = Some w' \<longrightarrow> (nl_ok w \<and> 0 \<le> cnt \<longrightarrow> keeps_time w w')) \<and>
   (\<forall>w w'. Flush n ind w = Some w' \<longrightarrow> (nl_ok w \<longrightarrow> keeps_time w w'))"
proof (rule calls_induct, goal_cases)
  case (1 w pc s)
  show ?case
    using seq_arg_on_time[of s w]
    by (auto simp add: keeps_time_def nl_ok_def stored_ok_def list_all_iff)
next
  case (2 w pc s)
  show ?case
    using seq_arg_on_time[of s w]
    by (auto simp add: keeps_time_def nl_ok_def stored_ok_def list_all_iff)
next
  case (3 w pc s)
  show ?case
    using seq_arg_on_time[of s w]
    by (auto simp add: keeps_time_def nl_ok_def stored_ok_def list_all_iff)
next
  case (4 w pc s w' n)
  have "nl_ok (grown w pc s)" if "nl_ok w" "s = 0 \<or> s \<le> m_seqnum w"
    using that seq_arg_on_time[of s w] by (auto simp add: nl_ok_def stored_ok_def list_all_iff)
  with 4(4) show ?case by (auto simp add: keeps_time_def stored_ok_def list_all_iff)
next
  case (5 w)
  show ?case by (simp add: keeps_time_def)
next
  case (6 w w3 w' n)
  show ?case
  proof
    assume a: "nl_ok w"
    then have "nl_ok (snapshot w) \<and> list_all (stored_ok (snapshot w)) (m_scratch (snapshot w))"
      by (simp add: nl_ok_def stored_ok_def list_all_iff)
    with 6(2) have 3: "nl_ok w3 \<and> list_all (stored_ok w3) (m_scratch w3)" by blast
    with 6(3) have "keeps_time w3 w'" by simp
    with 3 show "keeps_time w w'" by (simp add: keeps_time_def)
  qed
next
  case (7 w idx)
  show ?case by simp
next
  case (8 w idx w1 w' n)
  show ?case
  proof
    assume a: "nl_ok w \<and> list_all (stored_ok w) (m_scratch w)"
    with 8(1) have "stored_ok w (m_scratch w ! idx)" by (simp add: list_all_length)
    then have "e_seqnum (m_scratch w ! idx) = 0 \<or> e_seqnum (m_scratch w ! idx) \<le> m_seqnum w"
      by (simp add: stored_ok_def)
    with 8(2) a have "keeps_time w w1" by blast
    with a have "nl_ok w1 \<and> list_all (stored_ok w1) (m_scratch w1)"
      by (simp add: keeps_time_def)
    with 8(3) show "nl_ok w' \<and> list_all (stored_ok w') (m_scratch w')" by blast
  qed
next
  case (9 w cnt)
  show ?case by (simp add: keeps_time_def)
next
  case (10 w cnt)
  show ?case
    by (auto simp add: keeps_time_def nl_ok_def stored_ok_def list_all_iff)
next
  case (11 w cnt w' n)
  let ?w1 = "w\<lparr>m_seqnum := m_seqnum w + cnt\<rparr>"
  show ?case
  proof
    assume a: "nl_ok w \<and> 0 \<le> cnt"
    then have "nl_ok ?w1" by (auto simp add: nl_ok_def stored_ok_def list_all_iff)
    with 11(3) have k: "keeps_time ?w1 w'" by simp
    have "list_all (stored_ok ?w1) (m_scratch ?w1)" if "list_all (stored_ok w) (m_scratch w)"
      using that a by (auto simp add: stored_ok_def list_all_iff)
    with k show "keeps_time w w'" by (simp add: keeps_time_def)
  qed
next
  case (12 w)
  then show ?case by (simp add: keeps_time_def nl_ok_def stored_ok_def list_all_iff)
next
  case (13 w w' n)
  let ?C = "(committed ind w)\<lparr>m_skipped := survivors w\<rparr>"
  show ?case
  proof
    assume a: "nl_ok w"
    then have "nl_ok ?C"
      by (auto simp add: nl_ok_def stored_ok_def survivors_def Zap_Collapse_def list_all_iff)
    with 13(2) have "keeps_time ?C w'" by simp
    then show "keeps_time w w'" by (simp add: keeps_time_def stored_ok_def list_all_iff)
  qed
qed

lemma do_call_nl_ok:
  assumes "do_call n ind w c = Some w'" and "nl_ok w" and "on_time w c"
  shows "nl_ok w'"
proof (cases c)
  case (Call_Start span thresh)
  with assms(1) show ?thesis by (auto simp add: Start_def nl_ok_def Reset_def)
next
  case (Call_Add pc s)
  with assms time_all[of n ind] have "keeps_time w w'" by auto
  then show ?thesis by (simp add: keeps_time_def)
next
  case (Call_NewLines cnt)
  with assms time_all[of n ind] have "keeps_time w w'" by auto
  then show ?thesis by (simp add: keeps_time_def)
next
  case Call_Flush
  with assms time_all[of n ind] have "keeps_time w w'" by auto
  then show ?thesis by (simp add: keeps_time_def)
next
  case Call_End
  with assms(1) obtain w1 where b: "before_clear n ind w = Some w1" and w': "w' = cleared w1"
    by (auto simp add: End_before_clear)
  have "nl_ok w1"
  proof (cases "m_aligned w = []")
    case True
    with b assms(2) show ?thesis by (simp add: before_clear_def)
  next
    case False
    with b have "Flush n ind w = Some w1" by (simp add: before_clear_def)
    with assms(2) time_all[of n ind] have "keeps_time w w1" by blast
    then show ?thesis by (simp add: keeps_time_def)
  qed
  then show ?thesis unfolding w' by (simp add: nl_ok_def stored_ok_def list_all_iff)
qed

lemma session_nl_ok:
  "session n ind w cs = Some w' \<Longrightarrow> nl_ok w \<Longrightarrow> punctual n ind w cs \<Longrightarrow> nl_ok w'"
proof (induction cs arbitrary: w)
  case Nil
  then show ?case by simp
next
  case (Cons c cs)
  from Cons.prems(1) obtain w1 where 1: "do_call n ind w c = Some w1"
    and 2: "session n ind w1 cs = Some w'"
    by (auto split: option.splits)
  from Cons.prems(3) 1 have 3: "on_time w c" and 4: "punctual n ind w1 cs" by simp_all
  from Cons.IH[OF 2 do_call_nl_ok[OF 1 Cons.prems(2) 3] 4] show ?case .
qed

text \<open>
  C7, amended. Every sequence of \<open>Start\<close>, \<open>Add\<close>, \<open>NewLines\<close>, \<open>Flush\<close> and \<open>End\<close> calls that
  begins with \<open>Start\<close> returns, and \<open>nl_seqnum \<le> seqnum\<close> holds afterwards provided that every
  \<open>Add\<close> was called with its sequence number unset (\<open>0\<close>) or at most the running \<open>seqnum\<close>
  of that moment, and no \<open>NewLines\<close> was called with a negative count.
\<close>

theorem nl_seqnum_le_seqnum:
  "(\<exists>n w'. session n ind (Start w0 span thresh) cs = Some w') \<and>
   (\<forall>n w'. session n ind (Start w0 span thresh) cs = Some w' \<and>
      punctual n ind (Start w0 span thresh) cs \<longrightarrow> m_nl_seqnum w' \<le> m_seqnum w')"
proof
  show "\<exists>n w'. session n ind (Start w0 span thresh) cs = Some w'" by (rule session_returns)
  have "nl_ok (Start w0 span thresh)" by (simp add: nl_ok_def Start_def Reset_def)
  then show "\<forall>n w'. session n ind (Start w0 span thresh) cs = Some w' \<and>
      punctual n ind (Start w0 span thresh) cs \<longrightarrow> m_nl_seqnum w' \<le> m_seqnum w'"
    using session_nl_ok[of _ ind "Start w0 span thresh" cs] by (auto simp add: nl_ok_def)
qed

theorem nl_seqnum_le_seqnum_witness:
  "punctual 6 set_column (Start (fresh far_tokens) 5 1) punctual_calls \<and>
   (\<exists>w'. session 6 set_column (Start (fresh far_tokens) 5 1) punctual_calls = Some w' \<and>
      m_nl_seqnum w' \<le> m_seqnum w') \<and>
   map_option observe (session 6 set_column (Start (fresh far_tokens) 5 1) punctual_calls) =
     Some ([], [], 0, 11, 11, [(0, 1), (1, 10), (2, 30)])"
proof -
  have e: "punctual 6 set_column (Start (fresh far_tokens) 5 1) punctual_calls"
    by code_simp
  have f: "map_option observe (session 6 set_column (Start (fresh far_tokens) 5 1) punctual_calls) =
     Some ([], [], 0, 11, 11, [(0, 1), (1, 10), (2, 30)])"
    by code_simp
  then obtain w' where s: "session 6 set_column (Start (fresh far_tokens) 5 1) punctual_calls = Some w'"
    by blast
  with e nl_seqnum_le_seqnum[of set_column "fresh far_tokens" 5 1 punctual_calls]
  have "m_nl_seqnum w' \<le> m_seqnum w'" by blast
  with e f s show ?thesis by blast
qed

text \<open>
  C7 as stated fails: an \<open>Add\<close> with an explicit sequence number ahead of the running
  counter sets \<open>nl_seqnum\<close> above \<open>seqnum\<close>. After \<open>Start\<close> and \<open>Add(token, 1)\<close>, a sequence
  in which the sequence numbers passed to \<open>Add\<close> do not decrease, \<open>nl_seqnum\<close> is 1 and
  \<open>seqnum\<close> is 0. A negative count does the same from the other side: after \<open>Start\<close>,
  \<open>Add(token)\<close> and \<open>NewLines(-1)\<close>, \<open>nl_seqnum\<close> is 0 and \<open>seqnum\<close> is -1.
\<close>

theorem nl_seqnum_le_seqnum_counterexample:
  "map_option observe
     (session 2 set_column (fresh far_tokens) [Call_Start 3 2, Call_Add 0 1]) =
     Some ([0], [], 2, 1, 0, []) \<and>
   map_option observe
     (session 2 set_column (fresh far_tokens) [Call_Start 3 2, Call_Add 0 0, Call_NewLines (- 1)]) =
     Some ([0], [], 2, 0, - 1, [])"
  by code_simp

section \<open>The alignment target and the pending group\<close>

lemma Flush_loop_pos:
  "keeps_positive ind \<Longrightarrow> pos_doc (chunks w) \<Longrightarrow> 0 < m_max_col w \<Longrightarrow>
   pos_doc (chunks (Flush_loop ind w es))"
proof (induction es arbitrary: w)
  case Nil
  then show ?case by simp
next
  case (Cons e es)
  let ?col = "m_max_col w - len (chunks w (m_pc e))"
  let ?w1 = "w\<lparr>chunks := indent_to_column ind (chunks w) (m_pc e) ?col,
               applied := applied w @ [(m_pc e, ?col)]\<rparr>"
  from Cons.prems have "pos_doc (indent_to_column ind (chunks w) (m_pc e) ?col)"
    unfolding keeps_positive_def by simp
  then have "pos_doc (chunks ?w1)" by simp
  moreover have "0 < m_max_col ?w1" using Cons.prems(3) by simp
  ultimately have "pos_doc (chunks (Flush_loop ind ?w1 es))"
    using Cons.IH[OF Cons.prems(1)] by blast
  then show ?case by (simp add: Let_def)
qed

lemma committed_pos:
  assumes "keeps_positive ind" and "group_ok w"
  shows "pos_doc (chunks (committed ind w))"
proof (cases "m_aligned w = []")
  case True
  with assms(2) show ?thesis by (simp add: committed_def group_ok_def)
next
  case False
  with assms(2) have "0 < m_max_col w" and "pos_doc (chunks w)"
    by (auto simp add: group_ok_def)
  from Flush_loop_pos[OF assms(1) this(2) this(1)] show ?thesis by (simp add: committed_def)
qed

lemma group_all:
  assumes k: "keeps_positive ind"
  shows
  "(\<forall>w pc s w'. Add n ind w pc s = Some w' \<longrightarrow> (group_ok w \<longrightarrow> group_ok w')) \<and>
   (\<forall>w w'. ReAddSkipped n ind w = Some w' \<longrightarrow> (group_ok w \<longrightarrow> group_ok w')) \<and>
   (\<forall>w idx w'. ReAdd_loop n ind w idx = Some w' \<longrightarrow> (group_ok w \<longrightarrow> group_ok w')) \<and>
   (\<forall>w cnt w'. NewLines n ind w cnt = Some w' \<longrightarrow> (group_ok w \<longrightarrow> group_ok w')) \<and>
   (\<forall>w w'. Flush n ind w = Some w' \<longrightarrow> (group_ok w \<longrightarrow> group_ok w'))"
proof (rule calls_induct, goal_cases)
  case (1 w pc s)
  show ?case by (simp add: group_ok_def)
next
  case (2 w pc s)
  show ?case
  proof
    assume g: "group_ok w"
    then have "0 < endcol w pc" by (simp add: group_ok_def pos_doc_def endcol_def)
    with 2(2) g show "group_ok (to_aligned w pc s)" by (simp add: group_ok_def)
  qed
next
  case (3 w pc s)
  show ?case
  proof
    assume g: "group_ok w"
    then have "0 < endcol w pc" by (simp add: group_ok_def pos_doc_def endcol_def)
    with g show "group_ok (grown w pc s)" by (simp add: group_ok_def)
  qed
next
  case (4 w pc s w' n)
  show ?case
  proof
    assume g: "group_ok w"
    then have "0 < endcol w pc" by (simp add: group_ok_def pos_doc_def endcol_def)
    with g have "group_ok (grown w pc s)" by (simp add: group_ok_def)
    with 4(4) show "group_ok w'" by simp
  qed
next
  case (5 w)
  show ?case by simp
next
  case (6 w w3 w' n)
  have "group_ok (snapshot w) = group_ok w" by (simp add: group_ok_def)
  with 6(2,3) show ?case by simp
next
  case (7 w idx)
  show ?case by simp
next
  case (8 w idx w1 w' n)
  then show ?case by simp
next
  case (9 w cnt)
  show ?case by simp
next
  case (10 w cnt)
  show ?case by (simp add: group_ok_def)
next
  case (11 w cnt w' n)
  have "group_ok (w\<lparr>m_seqnum := m_seqnum w + cnt\<rparr>) = group_ok w" by (simp add: group_ok_def)
  with 11(3) show ?case by simp
next
  case (12 w)
  show ?case using committed_pos[OF k, of w] by (simp add: group_ok_def)
next
  case (13 w w' n)
  show ?case
  proof
    assume "group_ok w"
    from committed_pos[OF k this]
    have "group_ok ((committed ind w)\<lparr>m_skipped := survivors w\<rparr>)" by (simp add: group_ok_def)
    with 13(2) show "group_ok w'" by simp
  qed
qed

lemma keeps_positive_set_column: "keeps_positive set_column"
  by (auto simp add: keeps_positive_def pos_doc_def indent_to_column_def set_column_def)

lemma pos_doc_far_tokens: "pos_doc far_tokens"
  by (auto simp add: pos_doc_def far_tokens_def doc_of_def nth_Cons' )

text \<open>
  C5, amended. Let every token of the document end at a positive column (\<open>column + len > 0\<close>),
  and let the column applier keep it so when it moves a token to a target with
  \<open>target + len > 0\<close>. Then the predicate "\<open>max_col = 0\<close> iff Aligned is empty" holds after
  \<open>Start\<close>, and from a state where it holds each of \<open>Add\<close>, \<open>NewLines\<close>, \<open>Flush\<close> and
  \<open>ReAddSkipped\<close> returns in a state where it holds. In \<open>End\<close> it holds up to the moment the
  collections are cleared; \<open>End\<close> does not reset \<open>max_col\<close>.
\<close>

theorem max_col_zero_iff_aligned_empty:
  assumes "keeps_positive ind"
  shows "(pos_doc (chunks w0) \<longrightarrow> group_ok (Start w0 span thresh)) \<and>
         (group_ok w \<longrightarrow>
            (\<exists>n w'. Add n ind w pc s = Some w' \<and> group_ok w') \<and>
            (\<exists>n w'. NewLines n ind w cnt = Some w' \<and> group_ok w') \<and>
            (\<exists>n w'. Flush n ind w = Some w' \<and> group_ok w') \<and>
            (\<exists>n w'. ReAddSkipped n ind w = Some w' \<and> group_ok w') \<and>
            (\<exists>n w1. before_clear n ind w = Some w1 \<and> End n ind w = Some (cleared w1) \<and>
               group_ok w1))"
proof (intro conjI impI)
  show "group_ok (Start w0 span thresh)" if "pos_doc (chunks w0)"
    using that by (simp add: group_ok_def Start_def Reset_def)
next
  assume g: "group_ok w"
  from Add_returns obtain n w' where "Add n ind w pc s = Some w'" by blast
  with group_all[OF assms, of n] g show "\<exists>n w'. Add n ind w pc s = Some w' \<and> group_ok w'"
    by blast
next
  assume g: "group_ok w"
  from NewLines_returns obtain n w' where "NewLines n ind w cnt = Some w'" by blast
  with group_all[OF assms, of n] g show "\<exists>n w'. NewLines n ind w cnt = Some w' \<and> group_ok w'"
    by blast
next
  assume g: "group_ok w"
  from Flush_returns obtain n w' where "Flush n ind w = Some w'" by blast
  with group_all[OF assms, of n] g show "\<exists>n w'. Flush n ind w = Some w' \<and> group_ok w'"
    by blast
next
  assume g: "group_ok w"
  from ReAddSkipped_returns obtain n w' where "ReAddSkipped n ind w = Some w'" by blast
  with group_all[OF assms, of n] g show "\<exists>n w'. ReAddSkipped n ind w = Some w' \<and> group_ok w'"
    by blast
next
  assume g: "group_ok w"
  from before_clear_returns obtain n w1 where b: "before_clear n ind w = Some w1" by blast
  have "group_ok w1"
  proof (cases "m_aligned w = []")
    case True
    with b g show ?thesis by (simp add: before_clear_def)
  next
    case False
    with b have "Flush n ind w = Some w1" by (simp add: before_clear_def)
    with group_all[OF assms, of n] g show ?thesis by blast
  qed
  with b show "\<exists>n w1. before_clear n ind w = Some w1 \<and> End n ind w = Some (cleared w1) \<and>
      group_ok w1"
    by (auto simp add: End_before_clear)
qed

theorem max_col_zero_iff_aligned_empty_witness:
  "keeps_positive set_column \<and> pos_doc (chunks (fresh far_tokens)) \<and>
   group_ok (Start (fresh far_tokens) 5 1) \<and>
   (\<exists>n w'. Add n set_column (Start (fresh far_tokens) 5 1) 1 0 = Some w' \<and> group_ok w') \<and>
   (\<exists>n w'. Flush n set_column (Start (fresh far_tokens) 5 1) = Some w' \<and> group_ok w') \<and>
   map_option observe (Add 2 set_column (Start (fresh far_tokens) 5 1) 1 0) =
     Some ([1], [], 11, 0, 0, [])"
proof -
  have p: "pos_doc (chunks (fresh far_tokens))"
    using pos_doc_far_tokens by (simp add: fresh_def)
  have e: "map_option observe (Add 2 set_column (Start (fresh far_tokens) 5 1) 1 0) =
     Some ([1], [], 11, 0, 0, [])"
    by code_simp
  from max_col_zero_iff_aligned_empty[OF keeps_positive_set_column,
      of "fresh far_tokens" 5 1 "Start (fresh far_tokens) 5 1" 1 0 0] p
  have g: "group_ok (Start (fresh far_tokens) 5 1)" by blast
  from max_col_zero_iff_aligned_empty[OF keeps_positive_set_column,
      of "fresh far_tokens" 5 1 "Start (fresh far_tokens) 5 1" 1 0 0] g
    keeps_positive_set_column p e
  show ?thesis by blast
qed

text \<open>
  C5 as stated fails twice. \<open>End\<close> clears Aligned and leaves \<open>max_col\<close>: after a session in
  which the flush of \<open>End\<close> re-admitted a skipped token, Aligned is empty and \<open>max_col\<close> is 11.
  And a token need not end at a positive column: a token of length 0 at column 0 is accepted
  into Aligned and leaves \<open>max_col = 0\<close>.
\<close>

theorem max_col_zero_iff_aligned_empty_counterexample:
  "map_option observe
     (session 6 set_column (fresh (doc_of [(1, 1), (10, 1)]))
        [Call_Start 0 1, Call_Add 0 1, Call_Add 1 1, Call_End]) =
     Some ([], [], 11, 1, 0, [(0, 1)]) \<and>
   map_option observe
     (session 2 set_column (fresh (doc_of [(0, 0)])) [Call_Start 0 1, Call_Add 0 1]) =
     Some ([0], [], 0, 1, 0, [])"
  by code_simp

section \<open>Replay of the skipped entries\<close>

text \<open>
  C3. The code does not re-evaluate every skipped entry. \<open>ReAddSkipped\<close> copies Skipped to the
  member \<open>m_scratch\<close> and loops over it by index; a replayed entry that is accepted and grows
  \<open>max_col\<close> while an earlier entry has been rejected again calls \<open>ReAddSkipped\<close> anew, which
  overwrites \<open>m_scratch\<close> with the shorter Skipped, and the outer loop then ends. Here tokens
  1, 2, 3 (columns 20, 14, 15) are in Skipped with \<open>max_col = 11\<close> and threshold 2, and
  \<open>Add\<close> of token 4 (column 12) grows \<open>max_col\<close> to 13: token 1 is rejected again, token 2 is
  accepted and grows \<open>max_col\<close> to 15, and token 3, whose column 15 lies in \<open>[13, 17]\<close>, is
  never passed to \<open>Add\<close> again: it is in neither collection afterwards.
\<close>

theorem replay_drops_entry:
  "map_option observe
     (session 8 set_column (fresh five_tokens)
        [Call_Start 100 2, Call_Add 0 1, Call_Add 1 2, Call_Add 2 3, Call_Add 3 4]) =
     Some ([0], [1, 2, 3], 11, 1, 0, []) \<and>
   map_option observe
     (session 8 set_column (fresh five_tokens)
        [Call_Start 100 2, Call_Add 0 1, Call_Add 1 2, Call_Add 2 3, Call_Add 3 4,
         Call_Add 4 5]) =
     Some ([0, 4, 2], [1], 15, 5, 0, [])"
  by code_simp

section \<open>Flush with nothing pending\<close>

lemma settled_all:
  "(\<forall>w pc s w'. Add n ind w pc s = Some w' \<longrightarrow> (target_clear w \<longrightarrow> settled w')) \<and>
   (\<forall>w w'. ReAddSkipped n ind w = Some w' \<longrightarrow> (target_clear w \<longrightarrow> settled w')) \<and>
   (\<forall>w idx w'. ReAdd_loop n ind w idx = Some w' \<longrightarrow> (settled w \<longrightarrow> settled w')) \<and>
   (\<forall>w cnt w'. NewLines n ind w cnt = Some w' \<longrightarrow> (settled w \<longrightarrow> settled w')) \<and>
   (\<forall>w w'. Flush n ind w = Some w' \<longrightarrow> settled w')"
proof (rule calls_induct, goal_cases)
  case (1 w pc s)
  then show ?case by (auto simp add: settled_def target_clear_def in_window_def)
next
  case (2 w pc s)
  show ?case by (simp add: settled_def)
next
  case (3 w pc s)
  show ?case by (simp add: settled_def)
next
  case (4 w pc s w' n)
  have "target_clear (grown w pc s)" by (simp add: target_clear_def)
  with 4(4) show ?case by simp
next
  case (5 w)
  then show ?case by (simp add: settled_def target_clear_def)
next
  case (6 w w3 w' n)
  show ?case
  proof
    assume "target_clear w"
    then have "settled (snapshot w)" by (simp add: settled_def target_clear_def)
    with 6(2) have "settled w3" by simp
    with 6(3) show "settled w'" by simp
  qed
next
  case (7 w idx)
  show ?case by simp
next
  case (8 w idx w1 w' n)
  show ?case
  proof
    assume "settled w"
    then have "target_clear w" by (simp add: settled_def target_clear_def)
    with 8(2) have "settled w1" by simp
    with 8(3) show "settled w'" by simp
  qed
next
  case (9 w cnt)
  show ?case by simp
next
  case (10 w cnt)
  show ?case by (simp add: settled_def)
next
  case (11 w cnt w' n)
  then show ?case by simp
next
  case (12 w)
  then show ?case by (simp add: settled_def)
next
  case (13 w w' n)
  have "target_clear ((committed ind w)\<lparr>m_skipped := survivors w\<rparr>)"
    by (simp add: target_clear_def)
  with 13(2) show ?case by simp
qed

lemma do_call_settled:
  assumes "do_call n ind w c = Some w'" and "inner c" and "settled w"
  shows "settled w'"
proof -
  from assms(3) have t: "target_clear w" by (simp add: settled_def target_clear_def)
  show ?thesis
  proof (cases c)
    case (Call_Add pc s)
    with assms(1) t settled_all[of n ind] show ?thesis by auto
  next
    case (Call_NewLines cnt)
    with assms(1,3) settled_all[of n ind] show ?thesis by auto
  next
    case Call_Flush
    with assms(1) settled_all[of n ind] show ?thesis by auto
  next
    case (Call_Start span thresh)
    with assms(2) show ?thesis by simp
  next
    case Call_End
    with assms(2) show ?thesis by simp
  qed
qed

lemma session_settled:
  "session n ind w cs = Some w' \<Longrightarrow> list_all inner cs \<Longrightarrow> settled w \<Longrightarrow> settled w'"
proof (induction cs arbitrary: w)
  case Nil
  then show ?case by simp
next
  case (Cons c cs)
  from Cons.prems(1) obtain w1 where 1: "do_call n ind w c = Some w1"
    and 2: "session n ind w1 cs = Some w'"
    by (auto split: option.splits)
  from Cons.prems(2) have 3: "inner c" and 4: "list_all inner cs" by simp_all
  from Cons.IH[OF 2 4 do_call_settled[OF 1 3 Cons.prems(3)]] show ?case .
qed

lemma Flush_nothing_pending:
  assumes "m_aligned w = []" and "m_skipped w = []"
  shows "Flush (Suc 0) ind w = Some (w\<lparr>m_max_col := 0, m_nl_seqnum := m_seqnum w\<rparr>)"
proof -
  from assms(1) have "committed ind w = w\<lparr>m_max_col := 0\<rparr>" by (simp add: committed_def)
  with assms(2) show ?thesis by (simp add: Flush_step)
qed

text \<open>
  C8. In every state that a session reaches (\<open>Start\<close>, then calls of \<open>Add\<close>, \<open>NewLines\<close> and
  \<open>Flush\<close>) in which Aligned is empty, and in the state that \<open>End\<close> leaves, \<open>Flush\<close> returns
  without a call of the column applier and with \<open>max_col = 0\<close>: its result is the state with
  \<open>max_col\<close> set to 0 and \<open>nl_seqnum\<close> set to \<open>seqnum\<close>. In such a state Skipped is empty
  too: an entry is rejected only against a target other than 0, which a session has only
  while Aligned is not empty, and a flush leaves Aligned empty only when no skipped entry
  is left to replay.
\<close>

theorem Flush_on_empty_aligned:
  assumes "list_all inner cs"
  shows "(\<exists>n w. session n ind (Start w0 span thresh) cs = Some w) \<and>
         (\<forall>n w. session n ind (Start w0 span thresh) cs = Some w \<and> m_aligned w = [] \<longrightarrow>
            m_skipped w = [] \<and>
            (\<exists>m w'. Flush m ind w = Some w' \<and> applied w' = applied w \<and> m_max_col w' = 0 \<and>
               w' = w\<lparr>m_max_col := 0, m_nl_seqnum := m_seqnum w\<rparr>)) \<and>
         (\<forall>n w w1. session n ind (Start w0 span thresh) cs = Some w \<and> End n ind w = Some w1 \<longrightarrow>
            m_aligned w1 = [] \<and>
            (\<exists>m w'. Flush m ind w1 = Some w' \<and> applied w' = applied w1 \<and> m_max_col w' = 0 \<and>
               w' = w1\<lparr>m_max_col := 0, m_nl_seqnum := m_seqnum w1\<rparr>))"
proof (intro conjI allI impI)
  show "\<exists>n w. session n ind (Start w0 span thresh) cs = Some w" by (rule session_returns)
next
  fix n w
  assume a: "session n ind (Start w0 span thresh) cs = Some w \<and> m_aligned w = []"
  have "settled (Start w0 span thresh)" by (simp add: settled_def Start_def Reset_def)
  with a assms have "settled w" using session_settled by blast
  with a show "m_skipped w = []" by (simp add: settled_def)
  with a Flush_nothing_pending[of w ind]
  show "\<exists>m w'. Flush m ind w = Some w' \<and> applied w' = applied w \<and> m_max_col w' = 0 \<and>
      w' = w\<lparr>m_max_col := 0, m_nl_seqnum := m_seqnum w\<rparr>"
    by (intro exI[of _ "Suc 0"] exI[of _ "w\<lparr>m_max_col := 0, m_nl_seqnum := m_seqnum w\<rparr>"]) simp
next
  fix n w w1
  assume a: "session n ind (Start w0 span thresh) cs = Some w \<and> End n ind w = Some w1"
  then obtain w2 where "w1 = cleared w2" by (auto simp add: End_before_clear)
  then have e: "m_aligned w1 = []" "m_skipped w1 = []" by simp_all
  then show "m_aligned w1 = []" by simp
  from e Flush_nothing_pending[of w1 ind]
  show "\<exists>m w'. Flush m ind w1 = Some w' \<and> applied w' = applied w1 \<and> m_max_col w' = 0 \<and>
      w' = w1\<lparr>m_max_col := 0, m_nl_seqnum := m_seqnum w1\<rparr>"
    by (intro exI[of _ "Suc 0"] exI[of _ "w1\<lparr>m_max_col := 0, m_nl_seqnum := m_seqnum w1\<rparr>"]) simp
qed

theorem Flush_on_empty_aligned_witness:
  "list_all inner [Call_Add 0 1, Call_Add 1 2, Call_NewLines 9] \<and>
   (\<exists>w. session 8 set_column (Start (fresh far_tokens) 5 1)
           [Call_Add 0 1, Call_Add 1 2, Call_NewLines 9] = Some w \<and>
      m_aligned w = [] \<and> m_skipped w = [] \<and>
      (\<exists>m w'. Flush m set_column w = Some w' \<and> applied w' = applied w \<and> m_max_col w' = 0)) \<and>
   map_option observe
     (session 8 set_column (Start (fresh far_tokens) 5 1)
        [Call_Add 0 1, Call_Add 1 2, Call_NewLines 9]) =
     Some ([], [], 0, 9, 9, [(0, 1), (1, 10)]) \<and>
   map_option observe
     (session 8 set_column (Start (fresh far_tokens) 5 1)
        [Call_Add 0 1, Call_Add 1 2, Call_NewLines 9, Call_Flush]) =
     Some ([], [], 0, 9, 9, [(0, 1), (1, 10)]) \<and>
   list_all inner [Call_Add 0 1, Call_Add 1 1] \<and>
   (\<exists>w w1. session 8 set_column (Start (fresh far_tokens) 0 1) [Call_Add 0 1, Call_Add 1 1] =
        Some w \<and>
      End 8 set_column w = Some w1 \<and> m_aligned w1 = [] \<and> m_max_col w1 = 11 \<and>
      (\<exists>m w'. Flush m set_column w1 = Some w' \<and> applied w' = applied w1 \<and> m_max_col w' = 0)) \<and>
   map_option observe
     (session 8 set_column (Start (fresh far_tokens) 0 1)
        [Call_Add 0 1, Call_Add 1 1, Call_End, Call_Flush]) =
     Some ([], [], 0, 0, 0, [(0, 1)])"
proof -
  have h: "list_all inner [Call_Add 0 1, Call_Add 1 2, Call_NewLines 9]" by simp
  have h': "list_all inner [Call_Add 0 1, Call_Add 1 1]" by simp
  have e: "map_option observe
     (session 8 set_column (Start (fresh far_tokens) 5 1)
        [Call_Add 0 1, Call_Add 1 2, Call_NewLines 9]) =
     Some ([], [], 0, 9, 9, [(0, 1), (1, 10)])"
    by code_simp
  have f: "map_option observe
     (session 8 set_column (Start (fresh far_tokens) 5 1)
        [Call_Add 0 1, Call_Add 1 2, Call_NewLines 9, Call_Flush]) =
     Some ([], [], 0, 9, 9, [(0, 1), (1, 10)])"
    by code_simp
  have g: "map_option observe
     (Option.bind
        (session 8 set_column (Start (fresh far_tokens) 0 1) [Call_Add 0 1, Call_Add 1 1])
        (End 8 set_column)) =
     Some ([], [], 11, 1, 0, [(0, 1)])"
    by code_simp
  have k: "map_option observe
     (session 8 set_column (Start (fresh far_tokens) 0 1)
        [Call_Add 0 1, Call_Add 1 1, Call_End, Call_Flush]) =
     Some ([], [], 0, 0, 0, [(0, 1)])"
    by code_simp
  from e obtain w where s: "session 8 set_column (Start (fresh far_tokens) 5 1)
        [Call_Add 0 1, Call_Add 1 2, Call_NewLines 9] = Some w"
    and o: "observe w = ([], [], 0, 9, 9, [(0, 1), (1, 10)])"
    by blast
  from o have a: "m_aligned w = []" by (simp add: observe_def)
  from Flush_on_empty_aligned[OF h, of set_column "fresh far_tokens" 5 1] s a
  have 1: "m_skipped w = [] \<and>
      (\<exists>m w'. Flush m set_column w = Some w' \<and> applied w' = applied w \<and> m_max_col w' = 0)"
    by blast
  from g obtain v v1
    where sv: "session 8 set_column (Start (fresh far_tokens) 0 1) [Call_Add 0 1, Call_Add 1 1] =
        Some v"
      and ev: "End 8 set_column v = Some v1"
      and ov: "observe v1 = ([], [], 11, 1, 0, [(0, 1)])"
    by (auto simp add: bind_eq_Some_conv)
  from ov have mv: "m_max_col v1 = 11" by (simp add: observe_def)
  from Flush_on_empty_aligned[OF h', of set_column "fresh far_tokens" 0 1] sv ev
  have 2: "m_aligned v1 = [] \<and>
      (\<exists>m w'. Flush m set_column v1 = Some w' \<and> applied w' = applied v1 \<and> m_max_col w' = 0)"
    by blast
  from h h' e f k s a 1 sv ev mv 2 show ?thesis by blast
qed

end
